theory Spec2Isabelle
  imports Main
begin

section \<open>The parser state the rules run on\<close>

text \<open>
  Every rule of \<^verbatim>\<open>yard_base_grammar.hpp\<close> is a type with one static function
  \<^verbatim>\<open>Match(ParserState_T& p)\<close>. The parser state is a template parameter: the file
  only calls \<^verbatim>\<open>GetPos\<close>, \<^verbatim>\<open>SetPos\<close>, \<^verbatim>\<open>AtEnd\<close>, \<^verbatim>\<open>GotoNext\<close>, \<^verbatim>\<open>StartNode\<close>,
  \<^verbatim>\<open>CompleteNode\<close> and \<^verbatim>\<open>AbandonNode\<close> on it. The state and these seven operations
  are modelled from the cursor contract of the specification (sections 3 and 6).
\<close>

datatype node = Node (label: int) (first: nat) (last: nat) (children: "node list")

text \<open>
  An open node: its label, the position at which it was started, and the nodes
  completed inside it so far (oldest first).
\<close>

type_synonym frame = "int \<times> nat \<times> node list"

text \<open>
  Modelled from the spec: the parser state (the type bound to \<^verbatim>\<open>ParserState_T\<close>).
  It owns the input sequence, the offset reached in it, the stack of open nodes
  (innermost first) and the completed nodes that have no open parent.
\<close>

record 'a cursor =
  input :: "'a list"
  offset :: nat
  open_nodes :: "frame list"
  roots :: "node list"

text \<open>
  Modelled from the spec: the cursor position (the type \<^verbatim>\<open>ParserState_T::Iterator\<close> of the
  source). Section 3 makes it an opaque, copyable token that is restorable: saving a
  position and restoring it later returns the state to exactly what it was when the
  position was saved, including any node-tree mutations made in between. The token
  therefore holds the offset in the input and the nodes as they were when it was taken.
\<close>

record position =
  saved_offset :: nat
  saved_open_nodes :: "frame list"
  saved_roots :: "node list"

definition GetPos :: "'a cursor \<Rightarrow> position" where
  \<comment> \<open>Modelled from the spec: \<open>currentPosition\<close>, an immutable snapshot.\<close>
  "GetPos p =
     \<lparr>saved_offset = offset p, saved_open_nodes = open_nodes p, saved_roots = roots p\<rparr>"

definition SetPos :: "position \<Rightarrow> 'a cursor \<Rightarrow> 'a cursor" where
  \<comment> \<open>Modelled from the spec: \<open>setPosition\<close> restores the state that the position was
      taken in: the offset, and the nodes with it (section 3).\<close>
  "SetPos s p =
     p\<lparr>offset := saved_offset s, open_nodes := saved_open_nodes s, roots := saved_roots s\<rparr>"

definition AtEnd :: "'a cursor \<Rightarrow> bool" where
  \<comment> \<open>Modelled from the spec: \<open>atEnd\<close>, no input unit is left.\<close>
  "AtEnd p = (length (input p) \<le> offset p)"

definition GotoNext :: "'a cursor \<Rightarrow> 'a cursor option" where
  \<comment> \<open>Modelled from the spec: \<open>advanceOne\<close> moves to the next input unit and is
      undefined at the end of the input; \<open>None\<close> is the call outside the precondition.\<close>
  "GotoNext p = (if AtEnd p then None else Some (p\<lparr>offset := Suc (offset p)\<rparr>))"

definition StartNode :: "int \<Rightarrow> 'a cursor \<Rightarrow> 'a cursor" where
  \<comment> \<open>Modelled from the spec: \<open>openNode\<close> pushes an open node that refers to the
      current position.\<close>
  "StartNode l p = p\<lparr>open_nodes := (l, offset p, []) # open_nodes p\<rparr>"

definition CompleteNode :: "int \<Rightarrow> 'a cursor \<Rightarrow> 'a cursor" where
  \<comment> \<open>Modelled from the spec: \<open>completeNode\<close> closes the most recently opened node
      that is still open, recording its span and the nodes completed inside it; the
      closed node becomes a child of the node that is now innermost, or a root. The
      label is the one given when the node was opened (\<open>Store\<close> passes the same one);
      with no open node the call changes nothing.\<close>
  "CompleteNode l p =
     (case open_nodes p of
        [] \<Rightarrow> p
      | (l', b, ks) # fs \<Rightarrow>
          (case fs of
             [] \<Rightarrow> p\<lparr>open_nodes := [], roots := roots p @ [Node l' b (offset p) ks]\<rparr>
           | (l'', b', ks') # fs' \<Rightarrow>
               p\<lparr>open_nodes := (l'', b', ks' @ [Node l' b (offset p) ks]) # fs'\<rparr>))"

definition AbandonNode :: "int \<Rightarrow> 'a cursor \<Rightarrow> 'a cursor" where
  \<comment> \<open>Modelled from the spec: \<open>abandonNode\<close> discards the most recently opened node
      that is still open, with all its descendants; with no open node the call changes
      nothing.\<close>
  "AbandonNode l p = (case open_nodes p of [] \<Rightarrow> p | f # fs \<Rightarrow> p\<lparr>open_nodes := fs\<rparr>)"

text \<open>The stack of open nodes as labels and start positions, innermost first.\<close>

definition open_stack :: "'a cursor \<Rightarrow> (int \<times> nat) list" where
  "open_stack p = map (\<lambda>(l, b, ks). (l, b)) (open_nodes p)"

section \<open>Outcomes of a match\<close>

text \<open>
  \<^verbatim>\<open>Match\<close> returns a \<^verbatim>\<open>bool\<close>, or leaves by an exception (\<^verbatim>\<open>Finao\<close> throws the
  integer 0), or calls \<^verbatim>\<open>GotoNext\<close> at the end of the input, where the cursor
  contract defines nothing. A match that does not return at all (the loops of
  \<^verbatim>\<open>Star\<close> and \<^verbatim>\<open>UntilPast\<close>) is \<open>None\<close>.
\<close>

datatype outcome = Returns bool | Throws int | Undefined

type_synonym 'a rule = "'a cursor \<Rightarrow> (outcome \<times> 'a cursor) option"

text \<open>The short-circuit operators \<^verbatim>\<open>&&\<close> and \<^verbatim>\<open>||\<close> on two \<^verbatim>\<open>Match\<close> calls.\<close>

definition and_also :: "'a rule \<Rightarrow> 'a rule \<Rightarrow> 'a rule" where
  "and_also A B p =
     (case A p of
        None \<Rightarrow> None
      | Some (Returns b, p') \<Rightarrow> (if b then B p' else Some (Returns False, p'))
      | Some (r, p') \<Rightarrow> Some (r, p'))"

definition or_else :: "'a rule \<Rightarrow> 'a rule \<Rightarrow> 'a rule" where
  "or_else A B p =
     (case A p of
        None \<Rightarrow> None
      | Some (Returns b, p') \<Rightarrow> (if b then Some (Returns True, p') else B p')
      | Some (r, p') \<Rightarrow> Some (r, p'))"

text \<open>Both operators at once: go on to the second call while the first returns \<open>c\<close>.\<close>

definition short_circuit :: "bool \<Rightarrow> 'a rule \<Rightarrow> 'a rule \<Rightarrow> 'a rule" where
  "short_circuit c A B p =
     (case A p of
        None \<Rightarrow> None
      | Some (Returns b, p') \<Rightarrow> (if b = c then B p' else Some (Returns b, p'))
      | Some (r, p') \<Rightarrow> Some (r, p'))"

section \<open>The rules of yard\_base\_grammar.hpp\<close>

text \<open>
  \<^verbatim>\<open>Store\<close> catches every exception of the sub-rule, abandons its node and throws
  the exception again. The line it writes to \<^verbatim>\<open>std::cerr\<close> on that path is not part of
  the parser state and is left out. A call outside the contract of the cursor is not an
  exception: it passes through with the node still open.
\<close>

definition Store :: "int \<Rightarrow> 'a rule \<Rightarrow> 'a rule" where
  "Store l R p =
     (case R (StartNode l p) of
        None \<Rightarrow> None
      | Some (Throws e, p') \<Rightarrow> Some (Throws e, AbandonNode l p')
      | Some (Returns b, p') \<Rightarrow>
          (if b then Some (Returns True, CompleteNode l p')
           else Some (Returns False, AbandonNode l p'))
      | Some (Undefined, p') \<Rightarrow> Some (Undefined, p'))"

definition Finao :: "'a rule \<Rightarrow> 'a rule" where
  "Finao R p =
     (case R p of
        None \<Rightarrow> None
      | Some (Returns b, p') \<Rightarrow> (if \<not> b then Some (Throws 0, p') else Some (Returns True, p'))
      | Some (r, p') \<Rightarrow> Some (r, p'))"

definition True_T :: "'a rule" where
  "True_T p = Some (Returns True, p)"

definition False_T :: "'a rule" where
  "False_T p = Some (Returns False, p)"

definition EndOfInput_T :: "'a rule" where
  "EndOfInput_T p = Some (Returns (AtEnd p), p)"

definition At :: "'a rule \<Rightarrow> 'a rule" where
  "At R p =
     (let pos = GetPos p in
      case R p of
        None \<Rightarrow> None
      | Some (Returns b, p') \<Rightarrow>
          (if b then Some (Returns True, SetPos pos p') else Some (Returns False, p'))
      | Some (r, p') \<Rightarrow> Some (r, p'))"

definition NotAt :: "'a rule \<Rightarrow> 'a rule" where
  "NotAt R p =
     (let pos = GetPos p in
      case R p of
        None \<Rightarrow> None
      | Some (Returns b, p') \<Rightarrow>
          (if b then Some (Returns False, SetPos pos p') else Some (Returns True, p'))
      | Some (r, p') \<Rightarrow> Some (r, p'))"

definition Or ::
  "'a rule \<Rightarrow> 'a rule \<Rightarrow> 'a rule \<Rightarrow> 'a rule \<Rightarrow> 'a rule \<Rightarrow> 'a rule \<Rightarrow> 'a rule \<Rightarrow> 'a rule \<Rightarrow>
   'a rule \<Rightarrow> 'a rule \<Rightarrow> 'a rule" where
  "Or T0 T1 T2 T3 T4 T5 T6 T7 T8 T9 =
     or_else (or_else (or_else (or_else (or_else (or_else (or_else (or_else (or_else
       T0 T1) T2) T3) T4) T5) T6) T7) T8) T9"

definition Seq ::
  "'a rule \<Rightarrow> 'a rule \<Rightarrow> 'a rule \<Rightarrow> 'a rule \<Rightarrow> 'a rule \<Rightarrow> 'a rule \<Rightarrow> 'a rule \<Rightarrow> 'a rule \<Rightarrow>
   'a rule \<Rightarrow> 'a rule \<Rightarrow> 'a rule" where
  "Seq T0 T1 T2 T3 T4 T5 T6 T7 T8 T9 p =
     (let pos = GetPos p in
      case and_also (and_also (and_also (and_also (and_also (and_also (and_also (and_also
             (and_also T0 T1) T2) T3) T4) T5) T6) T7) T8) T9 p of
        None \<Rightarrow> None
      | Some (Returns b, p') \<Rightarrow>
          (if b then Some (Returns True, p') else Some (Returns False, SetPos pos p'))
      | Some (r, p') \<Rightarrow> Some (r, p'))"

text \<open>The loop \<^verbatim>\<open>while (Rule_T::Match(p)) { }\<close> of \<^verbatim>\<open>Star\<close>.\<close>

partial_function (option) Star_while :: "'a rule \<Rightarrow> 'a cursor \<Rightarrow> (outcome \<times> 'a cursor) option" where
  "Star_while R p =
     (case R p of
        None \<Rightarrow> None
      | Some (Returns b, p') \<Rightarrow> (if b then Star_while R p' else Some (Returns True, p'))
      | Some (r, p') \<Rightarrow> Some (r, p'))"

declare Star_while.simps [code]

definition Star :: "'a rule \<Rightarrow> 'a rule" where
  "Star R p = (if \<not> AtEnd p then Star_while R p else Some (Returns True, p))"

definition Plus_T :: "'a rule \<Rightarrow> 'a rule" where
  "Plus_T R p =
     (case R p of
        None \<Rightarrow> None
      | Some (Returns b, p') \<Rightarrow>
          (if \<not> b then Some (Returns False, p')
           else (case Star R p' of
                   None \<Rightarrow> None
                 | Some (Returns b', p'') \<Rightarrow> Some (Returns True, p'')
                 | Some (r, p'') \<Rightarrow> Some (r, p'')))
      | Some (r, p') \<Rightarrow> Some (r, p'))"

definition Opt :: "'a rule \<Rightarrow> 'a rule" where
  "Opt R p =
     (if \<not> AtEnd p then
        (case R p of
           None \<Rightarrow> None
         | Some (Returns b, p') \<Rightarrow> Some (Returns True, p')
         | Some (r, p') \<Rightarrow> Some (r, p'))
      else Some (Returns True, p))"

text \<open>
  The loop of \<^verbatim>\<open>Repeat\<close>: \<^verbatim>\<open>for (int i=0; i < N; ++i)\<close>. The counter is an \<^verbatim>\<open>int\<close> and
  the bound an \<^verbatim>\<open>unsigned int\<close>; incrementing the counter beyond \<open>2^31 - 1\<close> is
  undefined.
\<close>

function Repeat_for ::
  "'a rule \<Rightarrow> nat \<Rightarrow> position \<Rightarrow> nat \<Rightarrow> 'a cursor \<Rightarrow> (outcome \<times> 'a cursor) option" where
  "Repeat_for R N pos i p =
     (if i < N then
        (case R p of
           None \<Rightarrow> None
         | Some (Returns b, p') \<Rightarrow>
             (if \<not> b then Some (Returns False, SetPos pos p')
              else if Suc i < 2 ^ 31 then Repeat_for R N pos (Suc i) p'
              else Some (Undefined, p'))
         | Some (r, p') \<Rightarrow> Some (r, p'))
      else Some (Returns True, p))"
  by pat_completeness auto
termination
  by (relation "measure (\<lambda>(R, N, pos, i, p). N - i)") auto

definition Repeat :: "'a rule \<Rightarrow> nat \<Rightarrow> 'a rule" where
  "Repeat R N p = Repeat_for R N (GetPos p) 0 p"

text \<open>The loop \<^verbatim>\<open>while (true) { ... }\<close> of \<^verbatim>\<open>UntilPast\<close>.\<close>

partial_function (option) UntilPast_while ::
  "'a rule \<Rightarrow> position \<Rightarrow> 'a cursor \<Rightarrow> (outcome \<times> 'a cursor) option" where
  "UntilPast_while R pos p =
     (case R p of
        None \<Rightarrow> None
      | Some (Returns b, p') \<Rightarrow>
          (if b then Some (Returns True, p')
           else (case GotoNext p' of
                   None \<Rightarrow> Some (Undefined, p')
                 | Some p'' \<Rightarrow>
                     (if AtEnd p'' then Some (Returns False, SetPos pos p'')
                      else UntilPast_while R pos p'')))
      | Some (r, p') \<Rightarrow> Some (r, p'))"

declare UntilPast_while.simps [code]

definition UntilPast :: "'a rule \<Rightarrow> 'a rule" where
  "UntilPast R p = UntilPast_while R (GetPos p) p"

definition UntilAt :: "'a rule \<Rightarrow> 'a rule" where
  "UntilAt R = UntilPast (At R)"

definition StoreFinao :: "int \<Rightarrow> 'a rule \<Rightarrow> 'a rule" where
  "StoreFinao l R = Store l (Finao R)"

definition FinaoIf :: "'a rule \<Rightarrow> 'a rule \<Rightarrow> 'a rule" where
  "FinaoIf T U = Seq T (Finao U) True_T True_T True_T True_T True_T True_T True_T True_T"

definition StoreIf :: "int \<Rightarrow> 'a rule \<Rightarrow> 'a rule \<Rightarrow> 'a rule" where
  "StoreIf l T U =
     Seq T (StoreFinao l U) True_T True_T True_T True_T True_T True_T True_T True_T"

section \<open>Terminals and start states of the scenarios\<close>

definition Literal :: "'a list \<Rightarrow> 'a rule" where
  \<comment> \<open>Modelled from the spec: the terminal \<open>Literal\<close> of the scenarios (section 8), which
      is not a rule of \<^verbatim>\<open>yard_base_grammar.hpp\<close>: it matches the given units at the
      cursor and consumes them, and fails without moving otherwise.\<close>
  "Literal s p =
     (if take (length s) (drop (offset p) (input p)) = s
      then Some (Returns True, p\<lparr>offset := offset p + length s\<rparr>)
      else Some (Returns False, p))"

definition Digit :: "char rule" where
  \<comment> \<open>Modelled from the spec: the terminal \<open>Digit\<close> of the scenarios (section 8), which
      is not a rule of \<^verbatim>\<open>yard_base_grammar.hpp\<close>: it consumes one decimal digit.\<close>
  "Digit p =
     (if \<not> AtEnd p \<and> input p ! offset p \<in> set ''0123456789''
      then Some (Returns True, p\<lparr>offset := Suc (offset p)\<rparr>)
      else Some (Returns False, p))"

definition parser_on :: "'a list \<Rightarrow> 'a cursor" where
  \<comment> \<open>A parser state at the start of an input, with no node opened or completed.\<close>
  "parser_on s = \<lparr>input = s, offset = 0, open_nodes = [], roots = []\<rparr>"

section \<open>Notions the properties are stated with\<close>

text \<open>
  The completed nodes directly under the innermost open node, or the roots when no node
  is open: where \<open>CompleteNode\<close> records the node it closes.
\<close>

definition completed_nodes :: "'a cursor \<Rightarrow> node list" where
  "completed_nodes p = (case open_nodes p of [] \<Rightarrow> roots p | (l, b, ks) # fs \<Rightarrow> ks)"

text \<open>
  \<open>grown p q\<close>: the state \<open>q\<close> has the open nodes and the roots of \<open>p\<close>, with some more
  completed nodes under the innermost open node (or some more roots, when no node is
  open). A rule is well nested when every run of it that returns or throws leaves the
  state grown in this sense: it has closed or abandoned every node it opened, and has
  touched no node that was open before.
\<close>

fun add_completed :: "node list \<Rightarrow> frame list \<times> node list \<Rightarrow> frame list \<times> node list" where
  "add_completed ks ([], rs) = ([], rs @ ks)"
| "add_completed ks ((l, b, cs) # fs, rs) = ((l, b, cs @ ks) # fs, rs)"

definition grown :: "'a cursor \<Rightarrow> 'a cursor \<Rightarrow> bool" where
  "grown p q = (\<exists>ks. (open_nodes q, roots q) = add_completed ks (open_nodes p, roots p))"

definition well_nested :: "'a rule \<Rightarrow> bool" where
  "well_nested R = (\<forall>p r q. R p = Some (r, q) \<longrightarrow> r \<noteq> Undefined \<longrightarrow> grown p q)"

text \<open>The input units that a cursor has not consumed yet.\<close>

definition remaining :: "'a cursor \<Rightarrow> nat" where
  "remaining p = length (input p) - offset p"

text \<open>
  \<open>all_return b Rs p\<close> runs the rules \<open>Rs\<close> one after the other, each on the state the
  one before left; it is \<open>Some q\<close> when every one of them returned \<open>b\<close>, and \<open>q\<close> is the
  state the last one left.
\<close>

fun all_return :: "bool \<Rightarrow> 'a rule list \<Rightarrow> 'a cursor \<Rightarrow> 'a cursor option" where
  "all_return b [] p = Some p"
| "all_return b (R # Rs) p =
     (case R p of
        None \<Rightarrow> None
      | Some (Returns b', p') \<Rightarrow> (if b' = b then all_return b Rs p' else None)
      | Some (r, p') \<Rightarrow> None)"

text \<open>
  The contract of a rule. \<open>restores_position\<close>: a match that returns false leaves the
  cursor at the position it found it at, that is, with the offset and the nodes it
  found. \<open>restores_offset\<close> asks this of the offset only. \<open>failure_transparent\<close>: a
  match that returns false leaves the whole cursor as it found it. \<open>keeps_input\<close>: a
  match does not change the input sequence (no operation of the cursor does).
\<close>

definition restores_position :: "'a rule \<Rightarrow> bool" where
  "restores_position R = (\<forall>p p'. R p = Some (Returns False, p') \<longrightarrow> GetPos p' = GetPos p)"

definition restores_offset :: "'a rule \<Rightarrow> bool" where
  "restores_offset R = (\<forall>p p'. R p = Some (Returns False, p') \<longrightarrow> offset p' = offset p)"

definition failure_transparent :: "'a rule \<Rightarrow> bool" where
  "failure_transparent R = (\<forall>p p'. R p = Some (Returns False, p') \<longrightarrow> p' = p)"

definition keeps_input :: "'a rule \<Rightarrow> bool" where
  "keeps_input R = (\<forall>p r p'. R p = Some (r, p') \<longrightarrow> input p' = input p)"

text \<open>A rule that returns or throws on every state, and that consumes input whenever it matches.\<close>

definition terminates :: "'a rule \<Rightarrow> bool" where
  "terminates R = (\<forall>p. R p \<noteq> None)"

definition consumes :: "'a rule \<Rightarrow> bool" where
  "consumes R = (\<forall>p p'. R p = Some (Returns True, p') \<longrightarrow> remaining p' < remaining p)"

section \<open>The cursor operations\<close>

lemma GetPos_SetPos [simp]: "GetPos (SetPos s p) = s"
  by (simp add: GetPos_def SetPos_def)

lemma input_SetPos [simp]: "input (SetPos s p) = input p"
  by (simp add: SetPos_def)

lemma offset_SetPos_GetPos [simp]: "offset (SetPos (GetPos p) q) = offset p"
  by (simp add: GetPos_def SetPos_def)

lemma open_nodes_SetPos_GetPos [simp]: "open_nodes (SetPos (GetPos p) q) = open_nodes p"
  by (simp add: GetPos_def SetPos_def)

lemma roots_SetPos_GetPos [simp]: "roots (SetPos (GetPos p) q) = roots p"
  by (simp add: GetPos_def SetPos_def)

lemma SetPos_same: "GetPos p' = GetPos p \<Longrightarrow> SetPos (GetPos p) p' = p'"
  by (simp add: GetPos_def SetPos_def)

lemma SetPos_restores: "input q = input p \<Longrightarrow> SetPos (GetPos p) q = p"
  by (simp add: GetPos_def SetPos_def)

lemma GetPos_offset: "GetPos q = GetPos p \<Longrightarrow> offset q = offset p"
  by (simp add: GetPos_def)

lemma GetPos_eq_iff:
  "GetPos q = GetPos p \<longleftrightarrow>
     offset q = offset p \<and> open_nodes q = open_nodes p \<and> roots q = roots p"
  by (auto simp: GetPos_def)

lemma cursor_eqI: "GetPos q = GetPos p \<Longrightarrow> input q = input p \<Longrightarrow> q = p"
  by (simp add: GetPos_def)

lemma open_stack_SetPos_GetPos [simp]: "open_stack (SetPos (GetPos p) q) = open_stack p"
  by (simp add: open_stack_def)

lemma open_stack_StartNode [simp]: "open_stack (StartNode l p) = (l, offset p) # open_stack p"
  by (simp add: open_stack_def StartNode_def)

lemma offset_StartNode [simp]: "offset (StartNode l p) = offset p"
  by (simp add: StartNode_def)

lemma offset_AbandonNode [simp]: "offset (AbandonNode l p) = offset p"
  by (simp add: AbandonNode_def split: list.splits)

lemma offset_CompleteNode [simp]: "offset (CompleteNode l p) = offset p"
  by (simp add: CompleteNode_def split: list.splits)

lemma input_node_operations [simp]:
  "input (StartNode l p) = input p" "input (AbandonNode l p) = input p"
  "input (CompleteNode l p) = input p"
  by (simp_all add: StartNode_def AbandonNode_def CompleteNode_def split: list.splits)

lemma input_GotoNext: "GotoNext p = Some q \<Longrightarrow> input q = input p"
  by (auto simp: GotoNext_def split: if_splits)

lemma open_stack_AbandonNode [simp]: "open_stack (AbandonNode l p) = tl (open_stack p)"
  by (simp add: AbandonNode_def open_stack_def split: list.splits)

lemma open_stack_CompleteNode [simp]: "open_stack (CompleteNode l p) = tl (open_stack p)"
  by (simp add: CompleteNode_def open_stack_def split: list.splits)

lemma AbandonNode_StartNode: "AbandonNode l (StartNode l p) = p"
  by (simp add: AbandonNode_def StartNode_def)

section \<open>Short-circuit chains\<close>

lemma and_also_True_T: "and_also A True_T = A"
  by (rule ext) (auto simp: and_also_def True_T_def split: option.splits outcome.splits)

lemma or_else_False_T: "or_else A False_T = A"
  by (rule ext) (auto simp: or_else_def False_T_def split: option.splits outcome.splits)

lemma and_also_short_circuit: "and_also = short_circuit True"
  by (intro ext) (auto simp: and_also_def short_circuit_def split: option.splits outcome.splits)

lemma or_else_short_circuit: "or_else = short_circuit False"
  by (intro ext) (auto simp: or_else_def short_circuit_def split: option.splits outcome.splits)

lemma short_circuit_through:
  "short_circuit c A B p = Some (Returns c, q) \<longleftrightarrow>
     (\<exists>m. A p = Some (Returns c, m) \<and> B m = Some (Returns c, q))"
  by (auto simp: short_circuit_def split: option.splits outcome.splits)

lemma short_circuit_stop:
  "short_circuit c A B p = Some (Returns (\<not> c), q) \<longleftrightarrow>
     A p = Some (Returns (\<not> c), q) \<or> (\<exists>m. A p = Some (Returns c, m) \<and> B m = Some (Returns (\<not> c), q))"
  by (auto simp: short_circuit_def split: option.splits outcome.splits)

lemma all_return_single: "all_return c [R] p = Some q \<longleftrightarrow> R p = Some (Returns c, q)"
  by (auto split: option.splits outcome.splits)

lemma all_return_append:
  "all_return c (Rs @ Ss) p = Some q \<longleftrightarrow>
     (\<exists>m. all_return c Rs p = Some m \<and> all_return c Ss m = Some q)"
  by (induction Rs arbitrary: p) (auto split: option.splits outcome.splits)

lemma all_return_snoc:
  "all_return c (Rs @ [R]) p = Some q \<longleftrightarrow>
     (\<exists>m. all_return c Rs p = Some m \<and> R m = Some (Returns c, q))"
  by (simp only: all_return_append all_return_single)

lemma chain_through:
  "foldl (short_circuit c) A Rs p = Some (Returns c, q) \<longleftrightarrow> all_return c (A # Rs) p = Some q"
proof (induction Rs arbitrary: q rule: rev_induct)
  case Nil
  show ?case using all_return_single[of c A p q] by simp
next
  case (snoc R Rs)
  have "foldl (short_circuit c) A (Rs @ [R]) p = Some (Returns c, q) \<longleftrightarrow>
        (\<exists>m. foldl (short_circuit c) A Rs p = Some (Returns c, m) \<and> R m = Some (Returns c, q))"
    by (simp add: short_circuit_through)
  also have "\<dots> \<longleftrightarrow> (\<exists>m. all_return c (A # Rs) p = Some m \<and> R m = Some (Returns c, q))"
    using snoc.IH by simp
  also have "\<dots> \<longleftrightarrow> all_return c ((A # Rs) @ [R]) p = Some q"
    by (simp only: all_return_snoc)
  finally show ?case by simp
qed

lemma ex_index_snoc:
  "(\<exists>k<length (L @ [R]). P (take k (L @ [R])) ((L @ [R]) ! k)) \<longleftrightarrow>
     (\<exists>k<length L. P (take k L) (L ! k)) \<or> P L R"
proof
  assume "\<exists>k<length (L @ [R]). P (take k (L @ [R])) ((L @ [R]) ! k)"
  then obtain k where k: "k < length (L @ [R])" "P (take k (L @ [R])) ((L @ [R]) ! k)"
    by blast
  show "(\<exists>k<length L. P (take k L) (L ! k)) \<or> P L R"
  proof (cases "k < length L")
    case True
    with k(2) have "P (take k L) (L ! k)" by (simp add: nth_append)
    with True show ?thesis by blast
  next
    case False
    with k(1) have "k = length L" by simp
    with k(2) show ?thesis by simp
  qed
next
  assume "(\<exists>k<length L. P (take k L) (L ! k)) \<or> P L R"
  then show "\<exists>k<length (L @ [R]). P (take k (L @ [R])) ((L @ [R]) ! k)"
  proof
    assume "\<exists>k<length L. P (take k L) (L ! k)"
    then obtain k where k: "k < length L" "P (take k L) (L ! k)" by blast
    then have "k < length (L @ [R]) \<and> P (take k (L @ [R])) ((L @ [R]) ! k)"
      by (simp add: nth_append)
    then show ?thesis by blast
  next
    assume "P L R"
    then have "length L < length (L @ [R]) \<and>
               P (take (length L) (L @ [R])) ((L @ [R]) ! (length L))" by simp
    then show ?thesis by blast
  qed
qed

lemma chain_stop:
  "foldl (short_circuit c) A Rs p = Some (Returns (\<not> c), q) \<longleftrightarrow>
     (\<exists>k<length (A # Rs). \<exists>m. all_return c (take k (A # Rs)) p = Some m \<and>
        ((A # Rs) ! k) m = Some (Returns (\<not> c), q))"
proof (induction Rs arbitrary: q rule: rev_induct)
  case Nil
  show ?case by simp
next
  case (snoc R Rs)
  define L where "L = A # Rs"
  have split: "foldl (short_circuit c) A (Rs @ [R]) p = Some (Returns (\<not> c), q) \<longleftrightarrow>
        foldl (short_circuit c) A Rs p = Some (Returns (\<not> c), q) \<or>
        (\<exists>m. all_return c L p = Some m \<and> R m = Some (Returns (\<not> c), q))"
    unfolding L_def by (simp add: short_circuit_stop chain_through del: all_return.simps)
  have ih: "foldl (short_circuit c) A Rs p = Some (Returns (\<not> c), q) \<longleftrightarrow>
     (\<exists>k<length L. \<exists>m. all_return c (take k L) p = Some m \<and>
        (L ! k) m = Some (Returns (\<not> c), q))"
    unfolding L_def by (rule snoc.IH)
  have idx: "(\<exists>k<length (L @ [R]). \<exists>m. all_return c (take k (L @ [R])) p = Some m \<and>
                ((L @ [R]) ! k) m = Some (Returns (\<not> c), q)) \<longleftrightarrow>
             (\<exists>k<length L. \<exists>m. all_return c (take k L) p = Some m \<and>
                (L ! k) m = Some (Returns (\<not> c), q)) \<or>
             (\<exists>m. all_return c L p = Some m \<and> R m = Some (Returns (\<not> c), q))"
    by (rule ex_index_snoc
          [where P = "\<lambda>Ts T. \<exists>m. all_return c Ts p = Some m \<and> T m = Some (Returns (\<not> c), q)"])
  have "A # Rs @ [R] = L @ [R]" by (simp add: L_def)
  with split ih idx show ?case by (simp only:)
qed


lemma all_return_position:
  "\<forall>R\<in>set Rs. restores_position R \<Longrightarrow> all_return False Rs p = Some q \<Longrightarrow> GetPos q = GetPos p"
proof (induction Rs arbitrary: p)
  case Nil
  then show ?case by simp
next
  case (Cons R Rs)
  from Cons.prems(2) obtain m where m: "R p = Some (Returns False, m)" "all_return False Rs m = Some q"
    by (auto split: option.splits outcome.splits if_splits)
  from Cons.prems(1) m(1) have "GetPos m = GetPos p" by (simp add: restores_position_def)
  moreover from Cons.IH[OF _ m(2)] Cons.prems(1) have "GetPos q = GetPos m" by simp
  ultimately show ?case by simp
qed

lemma all_return_offset:
  "\<forall>R\<in>set Rs. restores_offset R \<Longrightarrow> all_return False Rs p = Some q \<Longrightarrow> offset q = offset p"
proof (induction Rs arbitrary: p)
  case Nil
  then show ?case by simp
next
  case (Cons R Rs)
  from Cons.prems(2) obtain m where m: "R p = Some (Returns False, m)" "all_return False Rs m = Some q"
    by (auto split: option.splits outcome.splits if_splits)
  from Cons.prems(1) m(1) have "offset m = offset p" by (simp add: restores_offset_def)
  moreover from Cons.IH[OF _ m(2)] Cons.prems(1) have "offset q = offset m" by simp
  ultimately show ?case by simp
qed

lemma all_return_unchanged:
  "\<forall>R\<in>set Rs. failure_transparent R \<Longrightarrow> all_return False Rs p = Some q \<Longrightarrow> q = p"
proof (induction Rs arbitrary: p)
  case Nil
  then show ?case by simp
next
  case (Cons R Rs)
  from Cons.prems(2) obtain m where m: "R p = Some (Returns False, m)" "all_return False Rs m = Some q"
    by (auto split: option.splits outcome.splits if_splits)
  from Cons.prems(1) m(1) have "m = p" by (simp add: failure_transparent_def)
  moreover from Cons.IH[OF _ m(2)] Cons.prems(1) have "q = m" by simp
  ultimately show ?case by simp
qed

lemma all_return_input:
  "\<forall>R\<in>set Rs. keeps_input R \<Longrightarrow> all_return c Rs p = Some q \<Longrightarrow> input q = input p"
proof (induction Rs arbitrary: p)
  case Nil
  then show ?case by simp
next
  case (Cons R Rs)
  from Cons.prems(2) obtain m where m: "R p = Some (Returns c, m)" "all_return c Rs m = Some q"
    by (auto split: option.splits outcome.splits if_splits)
  from Cons.prems(1) m(1) have "input m = input p" by (simp add: keeps_input_def)
  moreover from Cons.IH[OF _ m(2)] Cons.prems(1) have "input q = input m" by simp
  ultimately show ?case by simp
qed

lemma Or_chain:
  "Or T0 T1 T2 T3 T4 T5 T6 T7 T8 T9 =
     foldl (short_circuit False) T0 [T1, T2, T3, T4, T5, T6, T7, T8, T9]"
  by (simp add: Or_def or_else_short_circuit)

lemma Seq_chain:
  "Seq T0 T1 T2 T3 T4 T5 T6 T7 T8 T9 p =
     (case foldl (short_circuit True) T0 [T1, T2, T3, T4, T5, T6, T7, T8, T9] p of
        None \<Rightarrow> None
      | Some (r, p') \<Rightarrow>
          if r = Returns False then Some (Returns False, SetPos (GetPos p) p') else Some (r, p'))"
  by (simp add: Seq_def and_also_short_circuit Let_def split: option.splits outcome.splits)

lemma Seq_true:
  "Seq T0 T1 T2 T3 T4 T5 T6 T7 T8 T9 p = Some (Returns True, q) \<longleftrightarrow>
     all_return True [T0, T1, T2, T3, T4, T5, T6, T7, T8, T9] p = Some q"
proof -
  have "Seq T0 T1 T2 T3 T4 T5 T6 T7 T8 T9 p = Some (Returns True, q) \<longleftrightarrow>
        foldl (short_circuit True) T0 [T1, T2, T3, T4, T5, T6, T7, T8, T9] p = Some (Returns True, q)"
    unfolding Seq_chain by (auto split: option.splits)
  then show ?thesis by (simp only: chain_through)
qed

lemmas and_chain_false = chain_stop [where c = True, unfolded not_True_eq_False]

lemmas or_chain_true = chain_stop [where c = False, unfolded not_False_eq_True]

lemma length_ten: "length [T0, T1, T2, T3, T4, T5, T6, T7, T8, T9] = 10"
  by simp

lemma Seq_false:
  "Seq T0 T1 T2 T3 T4 T5 T6 T7 T8 T9 p = Some (Returns False, q) \<longleftrightarrow>
     (\<exists>k<10. \<exists>m m'. all_return True (take k [T0, T1, T2, T3, T4, T5, T6, T7, T8, T9]) p = Some m \<and>
        ([T0, T1, T2, T3, T4, T5, T6, T7, T8, T9] ! k) m = Some (Returns False, m') \<and>
        q = SetPos (GetPos p) m')"
proof -
  have "Seq T0 T1 T2 T3 T4 T5 T6 T7 T8 T9 p = Some (Returns False, q) \<longleftrightarrow>
        (\<exists>m'. foldl (short_circuit True) T0 [T1, T2, T3, T4, T5, T6, T7, T8, T9] p =
                 Some (Returns False, m') \<and> q = SetPos (GetPos p) m')"
    unfolding Seq_chain by (auto split: option.splits)
  also have "\<dots> \<longleftrightarrow> (\<exists>m'. (\<exists>k<10. \<exists>m.
        all_return True (take k [T0, T1, T2, T3, T4, T5, T6, T7, T8, T9]) p = Some m \<and>
        ([T0, T1, T2, T3, T4, T5, T6, T7, T8, T9] ! k) m = Some (Returns False, m')) \<and>
        q = SetPos (GetPos p) m')"
    by (simp only: and_chain_false length_ten)
  also have "\<dots> \<longleftrightarrow> (\<exists>k<10. \<exists>m m'.
        all_return True (take k [T0, T1, T2, T3, T4, T5, T6, T7, T8, T9]) p = Some m \<and>
        ([T0, T1, T2, T3, T4, T5, T6, T7, T8, T9] ! k) m = Some (Returns False, m') \<and>
        q = SetPos (GetPos p) m')"
    by blast
  finally show ?thesis .
qed

lemma Or_false:
  "Or T0 T1 T2 T3 T4 T5 T6 T7 T8 T9 p = Some (Returns False, q) \<longleftrightarrow>
     all_return False [T0, T1, T2, T3, T4, T5, T6, T7, T8, T9] p = Some q"
  by (simp only: Or_chain chain_through)

lemma Or_true:
  "Or T0 T1 T2 T3 T4 T5 T6 T7 T8 T9 p = Some (Returns True, q) \<longleftrightarrow>
     (\<exists>k<10. \<exists>m. all_return False (take k [T0, T1, T2, T3, T4, T5, T6, T7, T8, T9]) p = Some m \<and>
        ([T0, T1, T2, T3, T4, T5, T6, T7, T8, T9] ! k) m = Some (Returns True, q))"
  by (simp only: Or_chain or_chain_true length_ten)

section \<open>Sentinels\<close>

lemma Seq_True_T:
  assumes "restores_position R"
  shows "Seq R True_T True_T True_T True_T True_T True_T True_T True_T True_T p = R p"
proof (cases "R p")
  case None
  then show ?thesis by (simp add: Seq_def and_also_True_T)
next
  case (Some a)
  obtain r p' where a: "a = (r, p')" by (cases a)
  show ?thesis
  proof (cases "r = Returns False")
    case True
    with Some a assms have "GetPos p' = GetPos p" by (simp add: restores_position_def)
    then show ?thesis using Some a True by (simp add: Seq_def and_also_True_T SetPos_same)
  next
    case False
    then show ?thesis using Some a by (cases r) (auto simp add: Seq_def and_also_True_T)
  qed
qed

lemma restores_position_Literal: "restores_position (Literal s)"
  by (simp add: restores_position_def Literal_def)

text \<open>
  C9 (sentinel neutrality). \<open>True_T\<close> matches on every state and \<open>False_T\<close> on none, and
  neither changes the state. A choice padded with \<open>False_T\<close> is the rule itself, and a
  sequence padded with \<open>True_T\<close> is the rule itself for every rule that keeps the rule
  contract of restoring the position when it returns false (the sequence restores the
  position on failure, the rule alone is trusted to). For any rule at all, the padded
  sequence is the rule followed, after a false result, by \<open>SetPos\<close> of the saved position.
\<close>

theorem sentinel_neutrality:
  "True_T p = Some (Returns True, p) \<and>
   False_T p = Some (Returns False, p) \<and>
   Or R False_T False_T False_T False_T False_T False_T False_T False_T False_T p = R p \<and>
   (restores_position R \<longrightarrow>
      Seq R True_T True_T True_T True_T True_T True_T True_T True_T True_T p = R p) \<and>
   Seq R True_T True_T True_T True_T True_T True_T True_T True_T True_T p =
     (case R p of
        None \<Rightarrow> None
      | Some (r, q) \<Rightarrow> Some (r, if r = Returns False then SetPos (GetPos p) q else q))"
proof -
  have "Seq R True_T True_T True_T True_T True_T True_T True_T True_T True_T p =
     (case R p of
        None \<Rightarrow> None
      | Some (r, q) \<Rightarrow> Some (r, if r = Returns False then SetPos (GetPos p) q else q))"
    by (simp add: Seq_def and_also_True_T Let_def split: option.splits outcome.splits)
  moreover have "True_T p = Some (Returns True, p) \<and> False_T p = Some (Returns False, p) \<and>
    Or R False_T False_T False_T False_T False_T False_T False_T False_T False_T p = R p \<and>
    (restores_position R \<longrightarrow>
      Seq R True_T True_T True_T True_T True_T True_T True_T True_T True_T p = R p)"
    by (simp add: True_T_def False_T_def Or_def or_else_False_T Seq_True_T)
  ultimately show ?thesis by blast
qed

theorem sentinel_neutrality_witness:
  "restores_position (Literal ''ab'') \<and>
   Or (Literal ''ab'') False_T False_T False_T False_T False_T False_T False_T False_T False_T
      (parser_on ''abc'') = Some (Returns True, (parser_on ''abc'')\<lparr>offset := 2\<rparr>) \<and>
   Seq (Literal ''ab'') True_T True_T True_T True_T True_T True_T True_T True_T True_T
      (parser_on ''abc'') = Some (Returns True, (parser_on ''abc'')\<lparr>offset := 2\<rparr>) \<and>
   Seq (Literal ''ab'') True_T True_T True_T True_T True_T True_T True_T True_T True_T
      (parser_on ''xbc'') = Some (Returns False, parser_on ''xbc'')"
proof -
  have h: "restores_position (Literal ''ab'')" by (rule restores_position_Literal)
  have a: "Literal ''ab'' (parser_on ''abc'') = Some (Returns True, (parser_on ''abc'')\<lparr>offset := 2\<rparr>)"
    by (simp add: Literal_def parser_on_def)
  have b: "Literal ''ab'' (parser_on ''xbc'') = Some (Returns False, parser_on ''xbc'')"
    by (simp add: Literal_def parser_on_def)
  from sentinel_neutrality [of "parser_on ''abc''" "Literal ''ab''"] h
  have 1: "Or (Literal ''ab'') False_T False_T False_T False_T False_T False_T False_T False_T
      False_T (parser_on ''abc'') = Literal ''ab'' (parser_on ''abc'') \<and>
    Seq (Literal ''ab'') True_T True_T True_T True_T True_T True_T True_T True_T True_T
      (parser_on ''abc'') = Literal ''ab'' (parser_on ''abc'')"
    by blast
  from sentinel_neutrality [of "parser_on ''xbc''" "Literal ''ab''"] h
  have 2: "Seq (Literal ''ab'') True_T True_T True_T True_T True_T True_T True_T True_T True_T
      (parser_on ''xbc'') = Literal ''ab'' (parser_on ''xbc'')"
    by blast
  from h 1 2 show ?thesis unfolding a b by simp
qed

section \<open>Mandatory match\<close>

text \<open>
  C3. \<open>Finao R\<close> returns true where \<open>R\<close> returns true, throws where \<open>R\<close> returns false and
  so never returns false. \<open>FinaoIf G R\<close>, the sequence of \<open>G\<close> and \<open>Finao R\<close>, throws when
  \<open>G\<close> matches and \<open>R\<close> then fails; the state is the one \<open>R\<close> left, the sequence does
  not restore the position on the way out.
\<close>

theorem Finao_escalates:
  "(R p = Some (Returns True, p1) \<longrightarrow> Finao R p = Some (Returns True, p1)) \<and>
   (R p = Some (Returns False, p1) \<longrightarrow> Finao R p = Some (Throws 0, p1)) \<and>
   Finao R p \<noteq> Some (Returns False, q) \<and>
   (G p = Some (Returns True, p2) \<and> R p2 = Some (Returns False, p3) \<longrightarrow>
      FinaoIf G R p = Some (Throws 0, p3))"
  by (auto simp: Finao_def FinaoIf_def Seq_def and_also_True_T and_also_def
           split: option.splits outcome.splits)

theorem Finao_escalates_witness:
  "Finao Digit (parser_on ''7'') = Some (Returns True, (parser_on ''7'')\<lparr>offset := 1\<rparr>) \<and>
   Finao Digit (parser_on ''x'') = Some (Throws 0, parser_on ''x'') \<and>
   FinaoIf (Literal ''#'') (Plus_T Digit) (parser_on ''#xy'') =
     Some (Throws 0, (parser_on ''#xy'')\<lparr>offset := 1\<rparr>)"
proof -
  have a: "Digit (parser_on ''7'') = Some (Returns True, (parser_on ''7'')\<lparr>offset := 1\<rparr>)"
    by (simp add: Digit_def parser_on_def AtEnd_def)
  have b: "Digit (parser_on ''x'') = Some (Returns False, parser_on ''x'')"
    by (simp add: Digit_def parser_on_def AtEnd_def)
  have g: "Literal ''#'' (parser_on ''#xy'') = Some (Returns True, (parser_on ''#xy'')\<lparr>offset := 1\<rparr>)"
    by (simp add: Literal_def parser_on_def)
  have r: "Plus_T Digit ((parser_on ''#xy'')\<lparr>offset := 1\<rparr>) =
             Some (Returns False, (parser_on ''#xy'')\<lparr>offset := 1\<rparr>)"
    by (simp add: Plus_T_def Digit_def parser_on_def AtEnd_def)
  from Finao_escalates [of Digit "parser_on ''7''" "(parser_on ''7'')\<lparr>offset := 1\<rparr>"] a
  have 1: "Finao Digit (parser_on ''7'') = Some (Returns True, (parser_on ''7'')\<lparr>offset := 1\<rparr>)"
    by blast
  from Finao_escalates [of Digit "parser_on ''x''" "parser_on ''x''"] b
  have 2: "Finao Digit (parser_on ''x'') = Some (Throws 0, parser_on ''x'')"
    by blast
  from Finao_escalates [of "Plus_T Digit" "parser_on ''#xy''" _ _ "Literal ''#''"
         "(parser_on ''#xy'')\<lparr>offset := 1\<rparr>" "(parser_on ''#xy'')\<lparr>offset := 1\<rparr>"] g r
  have 3: "FinaoIf (Literal ''#'') (Plus_T Digit) (parser_on ''#xy'') =
             Some (Throws 0, (parser_on ''#xy'')\<lparr>offset := 1\<rparr>)"
    by blast
  from 1 2 3 show ?thesis by simp
qed

section \<open>Lookahead\<close>

lemma At_cases:
  "At R p = (case R p of None \<Rightarrow> None
     | Some (r, q) \<Rightarrow> if r = Returns True then Some (r, SetPos (GetPos p) q) else Some (r, q))"
  by (simp add: At_def Let_def split: option.splits outcome.splits)

lemma NotAt_cases:
  "NotAt R p = (case R p of None \<Rightarrow> None
     | Some (r, q) \<Rightarrow> if r = Returns True then Some (Returns False, SetPos (GetPos p) q)
                     else if r = Returns False then Some (Returns True, q) else Some (r, q))"
  by (simp add: NotAt_def Let_def split: option.splits outcome.splits)

text \<open>
  C4 (lookahead purity). \<open>At R\<close> and \<open>NotAt R\<close> return whenever \<open>R\<close> returns, \<open>At R\<close> what
  \<open>R\<close> returns and \<open>NotAt R\<close> the opposite; after a match of \<open>R\<close> they restore the saved
  position, after a failure of \<open>R\<close> they leave the cursor as \<open>R\<close> left it (the source
  calls \<open>SetPos\<close> only after a match). So for a rule \<open>R\<close> that restores the position when
  it returns false, \<open>At R\<close> and \<open>NotAt R\<close> leave the position where it was whatever they
  return; and if \<open>R\<close> restores at least the offset, so do they.
\<close>

theorem lookahead_purity:
  "(R p = Some (Returns b, q) \<longrightarrow>
      At R p = Some (Returns b, if b then SetPos (GetPos p) q else q) \<and>
      NotAt R p = Some (Returns (\<not> b), if b then SetPos (GetPos p) q else q)) \<and>
   (At R p = Some (Returns b, p') \<longrightarrow> (\<exists>q. R p = Some (Returns b, q))) \<and>
   (NotAt R p = Some (Returns b, p') \<longrightarrow> (\<exists>q. R p = Some (Returns (\<not> b), q))) \<and>
   (restores_offset R \<longrightarrow>
      (At R p = Some (Returns b, p') \<longrightarrow> offset p' = offset p) \<and>
      (NotAt R p = Some (Returns b, p') \<longrightarrow> offset p' = offset p)) \<and>
   (restores_position R \<longrightarrow>
      (At R p = Some (Returns b, p') \<longrightarrow> GetPos p' = GetPos p) \<and>
      (NotAt R p = Some (Returns b, p') \<longrightarrow> GetPos p' = GetPos p) \<and>
      (R p = Some (Returns b, q) \<longrightarrow>
         At R p = Some (Returns b, SetPos (GetPos p) q) \<and>
         NotAt R p = Some (Returns (\<not> b), SetPos (GetPos p) q)))"
proof -
  have 1: "At R p = Some (Returns b, if b then SetPos (GetPos p) q else q) \<and>
           NotAt R p = Some (Returns (\<not> b), if b then SetPos (GetPos p) q else q)"
    if "R p = Some (Returns b, q)" for b q
    using that by (cases b) (simp_all add: At_cases NotAt_cases)
  have 2: "\<exists>q. R p = Some (Returns b, q)" if "At R p = Some (Returns b, p')"
    using that by (auto simp: At_cases split: option.splits if_splits)
  have 3: "\<exists>q. R p = Some (Returns (\<not> b), q)" if "NotAt R p = Some (Returns b, p')"
    using that by (auto simp: NotAt_cases split: option.splits if_splits)
  have shape: "\<exists>b' m. R p = Some (Returns b', m) \<and> p' = (if b' then SetPos (GetPos p) m else m)"
    if run: "At R p = Some (Returns b, p') \<or> NotAt R p = Some (Returns b, p')"
    using run
  proof
    assume at: "At R p = Some (Returns b, p')"
    from 2[OF at] obtain m where m: "R p = Some (Returns b, m)" by blast
    from 1[OF m] at have "p' = (if b then SetPos (GetPos p) m else m)" by simp
    with m show ?thesis by blast
  next
    assume notat: "NotAt R p = Some (Returns b, p')"
    from 3[OF notat] obtain m where m: "R p = Some (Returns (\<not> b), m)" by blast
    from 1[OF m] notat have "p' = (if \<not> b then SetPos (GetPos p) m else m)" by simp
    with m show ?thesis by blast
  qed
  have 4: "offset p' = offset p"
    if ro: "restores_offset R" and run: "At R p = Some (Returns b, p') \<or> NotAt R p = Some (Returns b, p')"
  proof -
    from shape[OF run] obtain b' m where m: "R p = Some (Returns b', m)"
      and p': "p' = (if b' then SetPos (GetPos p) m else m)" by blast
    show ?thesis
    proof (cases b')
      case True
      with p' show ?thesis by simp
    next
      case False
      with ro m have "offset m = offset p" by (simp add: restores_offset_def)
      with p' False show ?thesis by simp
    qed
  qed
  have 5: "GetPos p' = GetPos p"
    if rp: "restores_position R" and run: "At R p = Some (Returns b, p') \<or> NotAt R p = Some (Returns b, p')"
  proof -
    from shape[OF run] obtain b' m where m: "R p = Some (Returns b', m)"
      and p': "p' = (if b' then SetPos (GetPos p) m else m)" by blast
    show ?thesis
    proof (cases b')
      case True
      with p' show ?thesis by simp
    next
      case False
      with rp m have "GetPos m = GetPos p" by (simp add: restores_position_def)
      with p' False show ?thesis by simp
    qed
  qed
  have 6: "At R p = Some (Returns b, SetPos (GetPos p) q) \<and>
           NotAt R p = Some (Returns (\<not> b), SetPos (GetPos p) q)"
    if rp: "restores_position R" and run: "R p = Some (Returns b, q)"
  proof (cases b)
    case True
    with 1[OF run] show ?thesis by simp
  next
    case False
    with rp run have "GetPos q = GetPos p" by (simp add: restores_position_def)
    then have "SetPos (GetPos p) q = q" by (rule SetPos_same)
    with 1[OF run] False show ?thesis by simp
  qed
  from 1 2 3 4 5 6 show ?thesis by blast
qed

theorem lookahead_purity_witness:
  "restores_position (Literal ''a'') \<and> restores_offset (Literal ''a'') \<and>
   At (Literal ''a'') (parser_on ''ab'') = Some (Returns True, parser_on ''ab'') \<and>
   NotAt (Literal ''a'') (parser_on ''ab'') = Some (Returns False, parser_on ''ab'') \<and>
   At (Literal ''a'') (parser_on ''xb'') = Some (Returns False, parser_on ''xb'') \<and>
   NotAt (Literal ''a'') (parser_on ''xb'') = Some (Returns True, parser_on ''xb'')"
proof -
  have h: "restores_position (Literal ''a'')" by (rule restores_position_Literal)
  have o: "restores_offset (Literal ''a'')" by (simp add: restores_offset_def Literal_def)
  have a: "Literal ''a'' (parser_on ''ab'') = Some (Returns True, (parser_on ''ab'')\<lparr>offset := 1\<rparr>)"
    by (simp add: Literal_def parser_on_def)
  have b: "Literal ''a'' (parser_on ''xb'') = Some (Returns False, parser_on ''xb'')"
    by (simp add: Literal_def parser_on_def)
  have s1: "SetPos (GetPos (parser_on ''ab'')) ((parser_on ''ab'')\<lparr>offset := 1\<rparr>) = parser_on ''ab''"
    by (simp add: SetPos_def GetPos_def parser_on_def)
  have s2: "SetPos (GetPos (parser_on ''xb'')) (parser_on ''xb'') = parser_on ''xb''"
    by (simp add: SetPos_def GetPos_def parser_on_def)
  from lookahead_purity [where R = "Literal ''a''" and p = "parser_on ''ab''" and b = True
         and q = "(parser_on ''ab'')\<lparr>offset := 1\<rparr>" and p' = "parser_on ''ab''"] h o a
  have 1: "At (Literal ''a'') (parser_on ''ab'') =
             Some (Returns True, SetPos (GetPos (parser_on ''ab'')) ((parser_on ''ab'')\<lparr>offset := 1\<rparr>)) \<and>
           NotAt (Literal ''a'') (parser_on ''ab'') =
             Some (Returns (\<not> True), SetPos (GetPos (parser_on ''ab'')) ((parser_on ''ab'')\<lparr>offset := 1\<rparr>))"
    by blast
  from lookahead_purity [where R = "Literal ''a''" and p = "parser_on ''xb''" and b = False
         and q = "parser_on ''xb''" and p' = "parser_on ''xb''"] h o b
  have 2: "At (Literal ''a'') (parser_on ''xb'') =
             Some (Returns False, SetPos (GetPos (parser_on ''xb'')) (parser_on ''xb'')) \<and>
           NotAt (Literal ''a'') (parser_on ''xb'') =
             Some (Returns (\<not> False), SetPos (GetPos (parser_on ''xb'')) (parser_on ''xb''))"
    by blast
  from h o 1 2 show ?thesis unfolding s1 s2 by simp
qed

section \<open>The rule contract is kept by every rule\<close>

lemma failure_transparentI:
  "(\<And>p p'. R p = Some (Returns False, p') \<Longrightarrow> p' = p) \<Longrightarrow> failure_transparent R"
  by (simp add: failure_transparent_def)

lemma failure_transparentD: "failure_transparent R \<Longrightarrow> R p = Some (Returns False, p') \<Longrightarrow> p' = p"
  by (simp add: failure_transparent_def)

lemma keeps_inputI: "(\<And>p r p'. R p = Some (r, p') \<Longrightarrow> input p' = input p) \<Longrightarrow> keeps_input R"
  by (simp add: keeps_input_def)

lemma keeps_inputD: "keeps_input R \<Longrightarrow> R p = Some (r, p') \<Longrightarrow> input p' = input p"
  by (simp add: keeps_input_def)

lemma failure_transparent_restores: "failure_transparent R \<Longrightarrow> restores_position R"
  unfolding failure_transparent_def restores_position_def by blast

lemma restores_position_offset: "restores_position R \<Longrightarrow> restores_offset R"
  unfolding restores_position_def restores_offset_def by (blast intro: GetPos_offset)

lemma restores_position_transparent:
  "restores_position R \<Longrightarrow> keeps_input R \<Longrightarrow> failure_transparent R"
  unfolding restores_position_def keeps_input_def failure_transparent_def
  by (blast intro: cursor_eqI)

lemma Store_cases:
  "Store l R p = Some (r, q) \<longleftrightarrow>
     (\<exists>m. R (StartNode l p) = Some (r, m) \<and>
        q = (if r = Returns True then CompleteNode l m else if r = Undefined then m else AbandonNode l m))"
  by (auto simp: Store_def split: option.splits outcome.splits)

lemma failure_transparent_Store:
  assumes "failure_transparent R" shows "failure_transparent (Store l R)"
proof (rule failure_transparentI)
  fix p q assume "Store l R p = Some (Returns False, q)"
  then obtain m where m: "R (StartNode l p) = Some (Returns False, m)" "q = AbandonNode l m"
    by (auto simp: Store_cases)
  from failure_transparentD[OF assms m(1)] m(2) show "q = p" by (simp add: AbandonNode_StartNode)
qed

lemma keeps_input_Store: assumes "keeps_input R" shows "keeps_input (Store l R)"
proof (rule keeps_inputI)
  fix p r q assume "Store l R p = Some (r, q)"
  then obtain m where m: "R (StartNode l p) = Some (r, m)"
    and q: "q = (if r = Returns True then CompleteNode l m else if r = Undefined then m
                 else AbandonNode l m)"
    unfolding Store_cases by blast
  from keeps_inputD[OF assms m] q show "input q = input p" by simp
qed

lemma failure_transparent_Finao: "failure_transparent (Finao R)"
  by (rule failure_transparentI) (auto simp: Finao_def split: option.splits outcome.splits if_splits)

lemma keeps_input_Finao: "keeps_input R \<Longrightarrow> keeps_input (Finao R)"
  by (auto simp: keeps_input_def Finao_def split: option.splits outcome.splits if_splits)

lemma sentinels_contract:
  "failure_transparent True_T" "keeps_input True_T"
  "failure_transparent False_T" "keeps_input False_T"
  "failure_transparent EndOfInput_T" "keeps_input EndOfInput_T"
  by (simp_all add: failure_transparent_def keeps_input_def True_T_def False_T_def EndOfInput_T_def)

lemma failure_transparent_At: "failure_transparent R \<Longrightarrow> failure_transparent (At R)"
  by (auto simp: failure_transparent_def At_cases split: option.splits if_splits)

lemma keeps_input_At: "keeps_input R \<Longrightarrow> keeps_input (At R)"
  by (auto simp: keeps_input_def At_cases split: option.splits if_splits)

lemma failure_transparent_NotAt: assumes "keeps_input R" shows "failure_transparent (NotAt R)"
proof (rule failure_transparentI)
  fix p q assume "NotAt R p = Some (Returns False, q)"
  then obtain m where m: "R p = Some (Returns True, m)" "q = SetPos (GetPos p) m"
    by (auto simp: NotAt_cases split: option.splits if_splits)
  from keeps_inputD[OF assms m(1)] m(2) show "q = p" by (simp add: SetPos_restores)
qed

lemma keeps_input_NotAt: "keeps_input R \<Longrightarrow> keeps_input (NotAt R)"
  by (auto simp: keeps_input_def NotAt_cases split: option.splits if_splits)

lemma keeps_input_short_circuit:
  assumes "keeps_input A" "keeps_input B" shows "keeps_input (short_circuit c A B)"
proof (rule keeps_inputI)
  fix p r q assume run: "short_circuit c A B p = Some (r, q)"
  show "input q = input p"
  proof (cases "\<exists>m. A p = Some (Returns c, m)")
    case True
    then obtain m where m: "A p = Some (Returns c, m)" by blast
    with run have "B m = Some (r, q)" by (simp add: short_circuit_def)
    from keeps_inputD[OF assms(1) m] keeps_inputD[OF assms(2) this] show ?thesis by simp
  next
    case False
    with run have "A p = Some (r, q)"
      by (auto simp: short_circuit_def split: option.splits outcome.splits if_splits)
    from keeps_inputD[OF assms(1) this] show ?thesis .
  qed
qed

lemma keeps_input_chain:
  "keeps_input A \<Longrightarrow> \<forall>R\<in>set Rs. keeps_input R \<Longrightarrow> keeps_input (foldl (short_circuit c) A Rs)"
  by (induction Rs arbitrary: A) (simp_all add: keeps_input_short_circuit)

lemma failure_transparent_Or:
  assumes "\<forall>T\<in>set [T0, T1, T2, T3, T4, T5, T6, T7, T8, T9]. failure_transparent T"
  shows "failure_transparent (Or T0 T1 T2 T3 T4 T5 T6 T7 T8 T9)"
proof (rule failure_transparentI)
  fix p q assume "Or T0 T1 T2 T3 T4 T5 T6 T7 T8 T9 p = Some (Returns False, q)"
  then have "all_return False [T0, T1, T2, T3, T4, T5, T6, T7, T8, T9] p = Some q"
    by (simp only: Or_false)
  from all_return_unchanged[OF assms this] show "q = p" .
qed

lemma keeps_input_Or:
  assumes "\<forall>T\<in>set [T0, T1, T2, T3, T4, T5, T6, T7, T8, T9]. keeps_input T"
  shows "keeps_input (Or T0 T1 T2 T3 T4 T5 T6 T7 T8 T9)"
  unfolding Or_chain using assms by (intro keeps_input_chain) simp_all

lemma failure_transparent_Seq:
  assumes "\<forall>T\<in>set [T0, T1, T2, T3, T4, T5, T6, T7, T8, T9]. keeps_input T"
  shows "failure_transparent (Seq T0 T1 T2 T3 T4 T5 T6 T7 T8 T9)"
proof (rule failure_transparentI)
  let ?Ts = "[T0, T1, T2, T3, T4, T5, T6, T7, T8, T9]"
  fix p q assume "Seq T0 T1 T2 T3 T4 T5 T6 T7 T8 T9 p = Some (Returns False, q)"
  then obtain k m m' where k: "k < 10" and m: "all_return True (take k ?Ts) p = Some m"
    and m': "(?Ts ! k) m = Some (Returns False, m')" and q: "q = SetPos (GetPos p) m'"
    unfolding Seq_false by blast
  from assms have "\<forall>T\<in>set (take k ?Ts). keeps_input T"
    using set_take_subset[of k ?Ts] by blast
  from all_return_input[OF this m] have "input m = input p" .
  moreover from k have "?Ts ! k \<in> set ?Ts" by (intro nth_mem) simp
  with assms have "keeps_input (?Ts ! k)" by blast
  from keeps_inputD[OF this m'] have "input m' = input m" .
  ultimately show "q = p" using q by (simp add: SetPos_restores)
qed

lemma keeps_input_Seq:
  assumes "\<forall>T\<in>set [T0, T1, T2, T3, T4, T5, T6, T7, T8, T9]. keeps_input T"
  shows "keeps_input (Seq T0 T1 T2 T3 T4 T5 T6 T7 T8 T9)"
proof (rule keeps_inputI)
  fix p r q assume run: "Seq T0 T1 T2 T3 T4 T5 T6 T7 T8 T9 p = Some (r, q)"
  from assms have ki: "keeps_input (foldl (short_circuit True) T0 [T1, T2, T3, T4, T5, T6, T7, T8, T9])"
    by (intro keeps_input_chain) simp_all
  from run obtain m where
    m: "foldl (short_circuit True) T0 [T1, T2, T3, T4, T5, T6, T7, T8, T9] p = Some (r, m)"
    and q: "q = (if r = Returns False then SetPos (GetPos p) m else m)"
    unfolding Seq_chain by (auto split: option.splits if_splits)
  from keeps_inputD[OF ki m] q show "input q = input p" by simp
qed

lemma Star_while_outcome:
  assumes "Star_while R p = Some y"
  shows "fst y \<noteq> Returns False \<and> (keeps_input R \<longrightarrow> input (snd y) = input p)"
  using assms
proof (induction R p y rule: Star_while.raw_induct[rotated 1, consumes 1, case_names step])
  case (step S R p y)
  show ?case
  proof (cases "R p")
    case None
    with step(2) show ?thesis by simp
  next
    case (Some a)
    obtain r q where a: "a = (r, q)" by (cases a)
    with Some have rp: "R p = Some (r, q)" by simp
    have inp: "keeps_input R \<longrightarrow> input q = input p"
      using rp by (auto dest: keeps_inputD)
    show ?thesis
    proof (cases "r = Returns True")
      case True
      with step(2) rp have "S R q = Some y" by simp
      from step(1)[OF this] inp show ?thesis by simp
    next
      case False
      with step(2) rp have "snd y = q" "fst y \<noteq> Returns False"
        by (cases r; auto)+
      with inp show ?thesis by simp
    qed
  qed
qed

lemma Star_never_false: "Star R p \<noteq> Some (Returns False, q)"
proof
  assume a: "Star R p = Some (Returns False, q)"
  show False
  proof (cases "AtEnd p")
    case True
    with a show False by (simp add: Star_def)
  next
    case False
    with a have "Star_while R p = Some (Returns False, q)" by (simp add: Star_def)
    from Star_while_outcome[OF this] show False by simp
  qed
qed

lemma failure_transparent_Star: "failure_transparent (Star R)"
  by (simp add: failure_transparent_def Star_never_false)

lemma keeps_input_Star: assumes "keeps_input R" shows "keeps_input (Star R)"
proof (rule keeps_inputI)
  fix p r q assume a: "Star R p = Some (r, q)"
  show "input q = input p"
  proof (cases "AtEnd p")
    case True
    with a show ?thesis by (simp add: Star_def)
  next
    case False
    with a have "Star_while R p = Some (r, q)" by (simp add: Star_def)
    from Star_while_outcome[OF this] assms show ?thesis by simp
  qed
qed

lemma Plus_T_cases:
  "Plus_T R p = Some (Returns b, q) \<longleftrightarrow>
     (\<not> b \<and> R p = Some (Returns False, q)) \<or>
     (b \<and> (\<exists>m b'. R p = Some (Returns True, m) \<and> Star R m = Some (Returns b', q)))"
  by (auto simp: Plus_T_def split: option.splits outcome.splits if_splits)

lemma failure_transparent_Plus_T: "failure_transparent R \<Longrightarrow> failure_transparent (Plus_T R)"
  by (auto simp: failure_transparent_def Plus_T_cases)

lemma keeps_input_Plus_T: assumes "keeps_input R" shows "keeps_input (Plus_T R)"
proof (rule keeps_inputI)
  fix p r q assume run: "Plus_T R p = Some (r, q)"
  show "input q = input p"
  proof (cases "\<exists>m. R p = Some (Returns True, m)")
    case True
    then obtain m where m: "R p = Some (Returns True, m)" by blast
    with run obtain r' where "Star R m = Some (r', q)"
      by (auto simp: Plus_T_def split: option.splits outcome.splits)
    from keeps_inputD[OF keeps_input_Star[OF assms] this] keeps_inputD[OF assms m]
    show ?thesis by simp
  next
    case False
    with run have "R p = Some (r, q)"
      by (auto simp: Plus_T_def split: option.splits outcome.splits if_splits)
    from keeps_inputD[OF assms this] show ?thesis .
  qed
qed

lemma Opt_cases:
  "Opt R p = Some (Returns b, q) \<longleftrightarrow>
     b \<and> (if AtEnd p then q = p else (\<exists>b'. R p = Some (Returns b', q)))"
  by (auto simp: Opt_def split: option.splits outcome.splits if_splits)

lemma failure_transparent_Opt: "failure_transparent (Opt R)"
  by (simp add: failure_transparent_def Opt_cases)

lemma keeps_input_Opt: assumes "keeps_input R" shows "keeps_input (Opt R)"
proof (rule keeps_inputI)
  fix p r q assume run: "Opt R p = Some (r, q)"
  show "input q = input p"
  proof (cases "AtEnd p")
    case True
    with run show ?thesis by (simp add: Opt_def)
  next
    case False
    with run obtain r' where "R p = Some (r', q)"
      by (auto simp: Opt_def split: option.splits outcome.splits)
    from keeps_inputD[OF assms this] show ?thesis .
  qed
qed

lemma Repeat_for_outcome:
  "Repeat_for R N pos i p = Some (r, q) \<Longrightarrow>
     (r = Returns False \<longrightarrow> GetPos q = pos) \<and> (keeps_input R \<longrightarrow> input q = input p)"
proof (induction R N pos i p rule: Repeat_for.induct)
  case (1 R N pos i p)
  note run = "1.prems"
  show ?case
  proof (cases "i < N")
    case False
    with run show ?thesis by (auto simp: Repeat_for.simps[of R N pos i p])
  next
    case True
    note lt = this
    show ?thesis
    proof (cases "R p")
      case None
      with run lt show ?thesis by (simp add: Repeat_for.simps[of R N pos i p])
    next
      case (Some a)
      obtain r' m where a: "a = (r', m)" by (cases a)
      with Some have rp: "R p = Some (r', m)" by simp
      have inp: "keeps_input R \<longrightarrow> input m = input p"
        using rp by (auto dest: keeps_inputD)
      show ?thesis
      proof (cases "r' = Returns True")
        case True
        show ?thesis
        proof (cases "Suc i < 2 ^ 31")
          case False
          with run lt rp True have "r = Undefined" "q = m"
            by (simp_all add: Repeat_for.simps[of R N pos i p])
          with inp show ?thesis by simp
        next
          case small: True
          with run lt rp True have "Repeat_for R N pos (Suc i) m = Some (r, q)"
            by (simp add: Repeat_for.simps[of R N pos i p])
          from "1.IH"[OF lt Some a[symmetric] True _ small this] inp show ?thesis by simp
        qed
      next
        case False
        with run lt rp have "(r = Returns False \<and> q = SetPos pos m) \<or> (r \<noteq> Returns False \<and> q = m)"
          by (cases r'; cases "r' = Returns False";
              auto simp: Repeat_for.simps[of R N pos i p] split: if_splits)
        with inp show ?thesis by auto
      qed
    qed
  qed
qed

lemma failure_transparent_Repeat:
  assumes "keeps_input R" shows "failure_transparent (Repeat R N)"
proof (rule failure_transparentI)
  fix p q assume "Repeat R N p = Some (Returns False, q)"
  then have "Repeat_for R N (GetPos p) 0 p = Some (Returns False, q)" by (simp only: Repeat_def)
  from Repeat_for_outcome[OF this] assms show "q = p" by (blast intro: cursor_eqI)
qed

lemma keeps_input_Repeat: assumes "keeps_input R" shows "keeps_input (Repeat R N)"
proof (rule keeps_inputI)
  fix p r q assume "Repeat R N p = Some (r, q)"
  then have "Repeat_for R N (GetPos p) 0 p = Some (r, q)" by (simp only: Repeat_def)
  from Repeat_for_outcome[OF this] assms show "input q = input p" by simp
qed

lemma UntilPast_while_outcome:
  assumes "UntilPast_while R pos p = Some y"
  shows "(fst y = Returns False \<longrightarrow> GetPos (snd y) = pos) \<and>
         (keeps_input R \<longrightarrow> input (snd y) = input p)"
  using assms
proof (induction R pos p y rule: UntilPast_while.raw_induct[rotated 1, consumes 1, case_names step])
  case (step U R pos p y)
  show ?case
  proof (cases "R p")
    case None
    with step(2) show ?thesis by simp
  next
    case (Some a)
    obtain r m where a: "a = (r, m)" by (cases a)
    with Some have rp: "R p = Some (r, m)" by simp
    have inp: "keeps_input R \<longrightarrow> input m = input p"
      using rp by (auto dest: keeps_inputD)
    show ?thesis
    proof (cases "r = Returns False")
      case False
      with step(2) rp have "snd y = m" "fst y \<noteq> Returns False"
        by (cases r; auto)+
      with inp show ?thesis by simp
    next
      case True
      show ?thesis
      proof (cases "GotoNext m")
        case None
        with step(2) rp True have "y = (Undefined, m)" by simp
        with inp show ?thesis by simp
      next
        case (Some n)
        from input_GotoNext[OF Some] have mn: "input n = input m" .
        show ?thesis
        proof (cases "AtEnd n")
          case True
          with step(2) rp \<open>r = Returns False\<close> Some have "y = (Returns False, SetPos pos n)" by simp
          with inp mn show ?thesis by simp
        next
          case False
          with step(2) rp \<open>r = Returns False\<close> Some have "U R pos n = Some y" by simp
          from step(1)[OF this] inp mn show ?thesis by simp
        qed
      qed
    qed
  qed
qed

lemma failure_transparent_UntilPast:
  assumes "keeps_input R" shows "failure_transparent (UntilPast R)"
proof (rule failure_transparentI)
  fix p q assume "UntilPast R p = Some (Returns False, q)"
  then have "UntilPast_while R (GetPos p) p = Some (Returns False, q)" by (simp add: UntilPast_def)
  from UntilPast_while_outcome[OF this] assms have "GetPos q = GetPos p" "input q = input p"
    by simp_all
  then show "q = p" by (rule cursor_eqI)
qed

lemma keeps_input_UntilPast: assumes "keeps_input R" shows "keeps_input (UntilPast R)"
proof (rule keeps_inputI)
  fix p r q assume "UntilPast R p = Some (r, q)"
  then have "UntilPast_while R (GetPos p) p = Some (r, q)" by (simp add: UntilPast_def)
  from UntilPast_while_outcome[OF this] assms show "input q = input p" by simp
qed

lemma terminals_contract:
  "failure_transparent (Literal s)" "keeps_input (Literal s)"
  "failure_transparent Digit" "keeps_input Digit"
  by (auto simp: failure_transparent_def keeps_input_def Literal_def Digit_def split: if_splits)

lemma restores_positionI:
  "(\<And>p p'. R p = Some (Returns False, p') \<Longrightarrow> GetPos p' = GetPos p) \<Longrightarrow> restores_position R"
  unfolding restores_position_def by blast

lemma restores_positionD:
  "restores_position R \<Longrightarrow> R p = Some (Returns False, p') \<Longrightarrow> GetPos p' = GetPos p"
  unfolding restores_position_def by blast

lemma GetPos_AbandonNode:
  "GetPos m = GetPos (StartNode l p) \<Longrightarrow> GetPos (AbandonNode l m) = GetPos p"
  by (simp add: GetPos_eq_iff AbandonNode_def StartNode_def)

lemma restores_position_Store:
  assumes "restores_position R" shows "restores_position (Store l R)"
proof (rule restores_positionI)
  fix p q assume "Store l R p = Some (Returns False, q)"
  then obtain m where m: "R (StartNode l p) = Some (Returns False, m)" "q = AbandonNode l m"
    by (auto simp: Store_cases)
  from restores_positionD[OF assms m(1)] have "GetPos (AbandonNode l m) = GetPos p"
    by (rule GetPos_AbandonNode)
  with m(2) show "GetPos q = GetPos p" by simp
qed

lemma restores_position_Finao: "restores_position (Finao R)"
  by (rule restores_positionI) (auto simp: Finao_def split: option.splits outcome.splits if_splits)

lemma restores_position_sentinels:
  "restores_position True_T" "restores_position False_T" "restores_position EndOfInput_T"
  by (simp_all add: restores_position_def True_T_def False_T_def EndOfInput_T_def)

lemma restores_position_At: assumes "restores_position R" shows "restores_position (At R)"
proof (rule restores_positionI)
  fix p q assume "At R p = Some (Returns False, q)"
  then have "R p = Some (Returns False, q)"
    by (auto simp: At_cases split: option.splits if_splits)
  from restores_positionD[OF assms this] show "GetPos q = GetPos p" .
qed

lemma restores_position_NotAt: "restores_position (NotAt R)"
proof (rule restores_positionI)
  fix p q assume "NotAt R p = Some (Returns False, q)"
  then obtain m where "q = SetPos (GetPos p) m"
    by (auto simp: NotAt_cases split: option.splits if_splits)
  then show "GetPos q = GetPos p" by simp
qed

lemma restores_position_Or:
  assumes "\<forall>T\<in>set [T0, T1, T2, T3, T4, T5, T6, T7, T8, T9]. restores_position T"
  shows "restores_position (Or T0 T1 T2 T3 T4 T5 T6 T7 T8 T9)"
proof (rule restores_positionI)
  fix p q assume "Or T0 T1 T2 T3 T4 T5 T6 T7 T8 T9 p = Some (Returns False, q)"
  then have "all_return False [T0, T1, T2, T3, T4, T5, T6, T7, T8, T9] p = Some q"
    by (simp only: Or_false)
  from all_return_position[OF assms this] show "GetPos q = GetPos p" .
qed

lemma restores_position_Seq: "restores_position (Seq T0 T1 T2 T3 T4 T5 T6 T7 T8 T9)"
proof (rule restores_positionI)
  fix p q assume "Seq T0 T1 T2 T3 T4 T5 T6 T7 T8 T9 p = Some (Returns False, q)"
  then obtain m' where "q = SetPos (GetPos p) m'"
    unfolding Seq_false by blast
  then show "GetPos q = GetPos p" by simp
qed

lemma restores_position_Star: "restores_position (Star R)"
  by (simp add: restores_position_def Star_never_false)

lemma restores_position_Plus_T:
  assumes "restores_position R" shows "restores_position (Plus_T R)"
proof (rule restores_positionI)
  fix p q assume "Plus_T R p = Some (Returns False, q)"
  then have "R p = Some (Returns False, q)" by (simp add: Plus_T_cases)
  from restores_positionD[OF assms this] show "GetPos q = GetPos p" .
qed

lemma restores_position_Opt: "restores_position (Opt R)"
  by (simp add: restores_position_def Opt_cases)

lemma restores_position_Repeat: "restores_position (Repeat R N)"
proof (rule restores_positionI)
  fix p q assume "Repeat R N p = Some (Returns False, q)"
  then have "Repeat_for R N (GetPos p) 0 p = Some (Returns False, q)" by (simp only: Repeat_def)
  from Repeat_for_outcome[OF this] show "GetPos q = GetPos p" by simp
qed

lemma restores_position_UntilPast: "restores_position (UntilPast R)"
proof (rule restores_positionI)
  fix p q assume "UntilPast R p = Some (Returns False, q)"
  then have "UntilPast_while R (GetPos p) p = Some (Returns False, q)" by (simp add: UntilPast_def)
  from UntilPast_while_outcome[OF this] show "GetPos q = GetPos p" by simp
qed

lemma restores_position_terminals: "restores_position (Literal s)" "restores_position Digit"
  by (simp_all add: failure_transparent_restores terminals_contract)

section \<open>Well-nested runs\<close>

lemma add_completed_Nil [simp]: "add_completed [] t = t"
  by (cases "([] :: node list, t)" rule: add_completed.cases) auto

lemma add_completed_twice [simp]:
  "add_completed ks' (add_completed ks t) = add_completed (ks @ ks') t"
  by (cases "(ks, t)" rule: add_completed.cases) auto

lemma add_completed_stack:
  "map (\<lambda>(l, b, ks). (l, b)) (fst (add_completed ks t)) = map (\<lambda>(l, b, ks). (l, b)) (fst t)"
  by (cases "(ks, t)" rule: add_completed.cases) auto

lemma grown_refl [simp]: "grown p p"
  unfolding grown_def by (rule exI[of _ "[]"]) simp

lemma grown_trans: "grown p q \<Longrightarrow> grown q r \<Longrightarrow> grown p r"
  unfolding grown_def by (metis add_completed_twice)

lemma grown_same_tree:
  "open_nodes q' = open_nodes q \<Longrightarrow> roots q' = roots q \<Longrightarrow> grown p q \<Longrightarrow> grown p q'"
  by (simp add: grown_def)

lemma grown_GetPos: "GetPos q = GetPos p \<Longrightarrow> grown p q"
  using grown_same_tree[of q p p] by (simp add: GetPos_eq_iff)

lemma grown_SetPos_GetPos [simp]: "grown p (SetPos (GetPos p) q)"
  by (rule grown_GetPos) simp

lemma grown_GotoNext: "GotoNext q = Some q' \<Longrightarrow> grown p q \<Longrightarrow> grown p q'"
  by (auto simp: GotoNext_def grown_def split: if_splits)

lemma grown_open_stack: "grown p q \<Longrightarrow> open_stack q = open_stack p"
proof -
  assume "grown p q"
  then obtain ks where "(open_nodes q, roots q) = add_completed ks (open_nodes p, roots p)"
    unfolding grown_def by blast
  then have "open_nodes q = fst (add_completed ks (open_nodes p, roots p))"
    by (metis fst_conv)
  then show ?thesis
    using add_completed_stack[of ks "(open_nodes p, roots p)"] by (simp add: open_stack_def)
qed

lemma grown_StartNode:
  "grown (StartNode l p) m \<longleftrightarrow>
     (\<exists>ks. open_nodes m = (l, offset p, ks) # open_nodes p \<and> roots m = roots p)"
  by (simp add: grown_def StartNode_def)

lemma grown_CompleteNode:
  assumes "grown (StartNode l p) m" shows "grown p (CompleteNode l m)"
proof -
  from assms obtain ks where
    m: "open_nodes m = (l, offset p, ks) # open_nodes p" "roots m = roots p"
    by (auto simp: grown_StartNode)
  have "(open_nodes (CompleteNode l m), roots (CompleteNode l m)) =
          add_completed [Node l (offset p) (offset m) ks] (open_nodes p, roots p)"
    using m by (cases "open_nodes p") (auto simp: CompleteNode_def)
  then show ?thesis unfolding grown_def by blast
qed

lemma AbandonNode_restores:
  assumes "grown (StartNode l p) m"
  shows "open_nodes (AbandonNode l m) = open_nodes p \<and> roots (AbandonNode l m) = roots p"
  using assms by (auto simp: grown_StartNode AbandonNode_def)

lemma grown_AbandonNode: "grown (StartNode l p) m \<Longrightarrow> grown p (AbandonNode l m)"
  using AbandonNode_restores[of l p m] grown_same_tree[of "AbandonNode l m" p p] by simp

lemma well_nestedI:
  "(\<And>p r q. R p = Some (r, q) \<Longrightarrow> r \<noteq> Undefined \<Longrightarrow> grown p q) \<Longrightarrow> well_nested R"
  by (simp add: well_nested_def)

lemma well_nestedD: "well_nested R \<Longrightarrow> R p = Some (r, q) \<Longrightarrow> r \<noteq> Undefined \<Longrightarrow> grown p q"
  by (simp add: well_nested_def)

lemma well_nested_Store:
  assumes "well_nested R" shows "well_nested (Store l R)"
proof (rule well_nestedI)
  fix p r q assume run: "Store l R p = Some (r, q)" and r: "r \<noteq> Undefined"
  from run obtain m where m: "R (StartNode l p) = Some (r, m)"
    and q: "q = (if r = Returns True then CompleteNode l m else if r = Undefined then m
                 else AbandonNode l m)"
    unfolding Store_cases by blast
  from well_nestedD[OF assms m r] have "grown (StartNode l p) m" .
  with q r show "grown p q" by (simp add: grown_CompleteNode grown_AbandonNode)
qed

lemma well_nested_Finao: "well_nested R \<Longrightarrow> well_nested (Finao R)"
  by (auto simp: well_nested_def Finao_def split: option.splits outcome.splits if_splits)

lemma well_nested_sentinels:
  "well_nested True_T" "well_nested False_T" "well_nested EndOfInput_T"
  by (simp_all add: well_nested_def True_T_def False_T_def EndOfInput_T_def)

lemma well_nested_At: "well_nested R \<Longrightarrow> well_nested (At R)"
  by (auto simp: well_nested_def At_cases split: option.splits if_splits)

lemma well_nested_NotAt: "well_nested R \<Longrightarrow> well_nested (NotAt R)"
  by (auto simp: well_nested_def NotAt_cases split: option.splits if_splits)

lemma well_nested_short_circuit:
  assumes "well_nested A" "well_nested B" shows "well_nested (short_circuit c A B)"
proof (rule well_nestedI)
  fix p r q assume run: "short_circuit c A B p = Some (r, q)" and r: "r \<noteq> Undefined"
  show "grown p q"
  proof (cases "\<exists>m. A p = Some (Returns c, m)")
    case True
    then obtain m where m: "A p = Some (Returns c, m)" by blast
    with run have "B m = Some (r, q)" by (simp add: short_circuit_def)
    from well_nestedD[OF assms(1) m] well_nestedD[OF assms(2) this r]
    show ?thesis by (auto intro: grown_trans)
  next
    case False
    with run have "A p = Some (r, q)"
      by (auto simp: short_circuit_def split: option.splits outcome.splits if_splits)
    from well_nestedD[OF assms(1) this r] show ?thesis .
  qed
qed

lemma well_nested_chain:
  "well_nested A \<Longrightarrow> \<forall>R\<in>set Rs. well_nested R \<Longrightarrow> well_nested (foldl (short_circuit c) A Rs)"
  by (induction Rs arbitrary: A) (simp_all add: well_nested_short_circuit)

lemma well_nested_Or:
  assumes "\<forall>T\<in>set [T0, T1, T2, T3, T4, T5, T6, T7, T8, T9]. well_nested T"
  shows "well_nested (Or T0 T1 T2 T3 T4 T5 T6 T7 T8 T9)"
  unfolding Or_chain using assms by (intro well_nested_chain) simp_all

lemma well_nested_Seq:
  assumes "\<forall>T\<in>set [T0, T1, T2, T3, T4, T5, T6, T7, T8, T9]. well_nested T"
  shows "well_nested (Seq T0 T1 T2 T3 T4 T5 T6 T7 T8 T9)"
proof (rule well_nestedI)
  fix p r q assume run: "Seq T0 T1 T2 T3 T4 T5 T6 T7 T8 T9 p = Some (r, q)" and r: "r \<noteq> Undefined"
  from assms have wn: "well_nested (foldl (short_circuit True) T0 [T1, T2, T3, T4, T5, T6, T7, T8, T9])"
    by (intro well_nested_chain) simp_all
  from run obtain m where
    m: "foldl (short_circuit True) T0 [T1, T2, T3, T4, T5, T6, T7, T8, T9] p = Some (r, m)"
    and q: "q = (if r = Returns False then SetPos (GetPos p) m else m)"
    unfolding Seq_chain by (auto split: option.splits if_splits)
  from well_nestedD[OF wn m r] q show "grown p q" by simp
qed


lemma Star_while_grown:
  assumes "Star_while R p = Some y"
  shows "well_nested R \<Longrightarrow> fst y \<noteq> Undefined \<Longrightarrow> grown p (snd y)"
  using assms
proof (induction R p y rule: Star_while.raw_induct[rotated 1, consumes 1, case_names step])
  case (step S R p y)
  show ?case
  proof (cases "R p")
    case None
    with step(2) show ?thesis by simp
  next
    case (Some a)
    obtain r m where a: "a = (r, m)" by (cases a)
    with Some have rp: "R p = Some (r, m)" by simp
    show ?thesis
    proof (cases "r = Returns True")
      case True
      with step(2) rp have "S R m = Some y" by simp
      from step(1)[OF this step(3,4)] have "grown m (snd y)" .
      moreover from well_nestedD[OF step(3) rp] True have "grown p m" by simp
      ultimately show ?thesis by (auto intro: grown_trans)
    next
      case False
      with step(2) rp have "snd y = m" and "fst y = Undefined \<longleftrightarrow> r = Undefined"
        by (cases r; auto)+
      with well_nestedD[OF step(3) rp] step(4) show ?thesis by simp
    qed
  qed
qed

lemma well_nested_Star: assumes "well_nested R" shows "well_nested (Star R)"
proof (rule well_nestedI)
  fix p r q assume run: "Star R p = Some (r, q)" and r: "r \<noteq> Undefined"
  show "grown p q"
  proof (cases "AtEnd p")
    case True
    with run show ?thesis by (simp add: Star_def)
  next
    case False
    with run have "Star_while R p = Some (r, q)" by (simp add: Star_def)
    from Star_while_grown[OF this assms] r show ?thesis by simp
  qed
qed

lemma well_nested_Plus_T: assumes "well_nested R" shows "well_nested (Plus_T R)"
proof (rule well_nestedI)
  fix p r q assume run: "Plus_T R p = Some (r, q)" and r: "r \<noteq> Undefined"
  show "grown p q"
  proof (cases "\<exists>m. R p = Some (Returns True, m)")
    case True
    then obtain m where m: "R p = Some (Returns True, m)" by blast
    with run obtain r' where "Star R m = Some (r', q)" "r' \<noteq> Undefined"
      using r by (auto simp: Plus_T_def split: option.splits outcome.splits)
    from well_nestedD[OF well_nested_Star[OF assms] this] well_nestedD[OF assms m]
    show ?thesis by (auto intro: grown_trans)
  next
    case False
    with run have "R p = Some (r, q)"
      by (auto simp: Plus_T_def split: option.splits outcome.splits if_splits)
    from well_nestedD[OF assms this r] show ?thesis .
  qed
qed

lemma well_nested_Opt: assumes "well_nested R" shows "well_nested (Opt R)"
proof (rule well_nestedI)
  fix p r q assume run: "Opt R p = Some (r, q)" and r: "r \<noteq> Undefined"
  show "grown p q"
  proof (cases "AtEnd p")
    case True
    with run show ?thesis by (simp add: Opt_def)
  next
    case False
    with run obtain r' where "R p = Some (r', q)" "r' \<noteq> Undefined"
      using r by (auto simp: Opt_def split: option.splits outcome.splits)
    from well_nestedD[OF assms this] show ?thesis .
  qed
qed

lemma Repeat_for_grown:
  "Repeat_for R N pos i p = Some (r, q) \<Longrightarrow> well_nested R \<Longrightarrow> r \<noteq> Undefined \<Longrightarrow>
     r = Returns False \<or> grown p q"
proof (induction R N pos i p rule: Repeat_for.induct)
  case (1 R N pos i p)
  note run = "1.prems"(1) and wn = "1.prems"(2) and r = "1.prems"(3)
  show ?case
  proof (cases "i < N")
    case False
    with run show ?thesis by (simp add: Repeat_for.simps[of R N pos i p])
  next
    case True
    note lt = this
    show ?thesis
    proof (cases "R p")
      case None
      with run lt show ?thesis by (simp add: Repeat_for.simps[of R N pos i p])
    next
      case (Some a)
      obtain r' m where a: "a = (r', m)" by (cases a)
      with Some have rp: "R p = Some (r', m)" by simp
      show ?thesis
      proof (cases "r' = Returns True")
        case True
        from well_nestedD[OF wn rp] True have pm: "grown p m" by simp
        show ?thesis
        proof (cases "Suc i < 2 ^ 31")
          case False
          with run lt rp True r show ?thesis by (simp add: Repeat_for.simps[of R N pos i p])
        next
          case small: True
          with run lt rp True have "Repeat_for R N pos (Suc i) m = Some (r, q)"
            by (simp add: Repeat_for.simps[of R N pos i p])
          from "1.IH"[OF lt Some a[symmetric] True _ small this wn r] pm
          show ?thesis by (auto intro: grown_trans)
        qed
      next
        case False
        with run lt rp have "r = Returns False \<or> r' \<noteq> Undefined \<and> q = m \<or> r = Undefined"
          by (cases r'; cases "r' = Returns False";
              auto simp: Repeat_for.simps[of R N pos i p] split: if_splits)
        with r have "r = Returns False \<or> r' \<noteq> Undefined \<and> q = m" by simp
        with well_nestedD[OF wn rp] show ?thesis by auto
      qed
    qed
  qed
qed

lemma well_nested_Repeat: assumes "well_nested R" shows "well_nested (Repeat R N)"
proof (rule well_nestedI)
  fix p r q assume "Repeat R N p = Some (r, q)" and r: "r \<noteq> Undefined"
  then have "Repeat_for R N (GetPos p) 0 p = Some (r, q)" by (simp only: Repeat_def)
  from Repeat_for_grown[OF this assms r] Repeat_for_outcome[OF this]
  show "grown p q" by (auto intro: grown_GetPos)
qed

lemma UntilPast_while_grown:
  assumes "UntilPast_while R i p = Some y"
  shows "well_nested R \<Longrightarrow> fst y \<noteq> Undefined \<Longrightarrow> fst y = Returns False \<or> grown p (snd y)"
  using assms
proof (induction R i p y rule: UntilPast_while.raw_induct[rotated 1, consumes 1, case_names step])
  case (step U R i p y)
  show ?case
  proof (cases "R p")
    case None
    with step(2) show ?thesis by simp
  next
    case (Some a)
    obtain r m where a: "a = (r, m)" by (cases a)
    with Some have rp: "R p = Some (r, m)" by simp
    show ?thesis
    proof (cases "r = Returns False")
      case False
      with step(2) rp have "snd y = m" and "fst y = Undefined \<longleftrightarrow> r = Undefined"
        by (cases r; auto)+
      with well_nestedD[OF step(3) rp] step(4) show ?thesis by simp
    next
      case True
      from well_nestedD[OF step(3) rp] True have pm: "grown p m" by simp
      show ?thesis
      proof (cases "GotoNext m")
        case None
        with step(2) rp True step(4) show ?thesis by auto
      next
        case (Some n)
        from grown_GotoNext[OF Some pm] have pn: "grown p n" .
        show ?thesis
        proof (cases "AtEnd n")
          case True
          with step(2) rp \<open>r = Returns False\<close> Some have "fst y = Returns False" by auto
          then show ?thesis by simp
        next
          case False
          with step(2) rp \<open>r = Returns False\<close> Some have "U R i n = Some y" by simp
          from step(1)[OF this step(3,4)] pn show ?thesis by (auto intro: grown_trans)
        qed
      qed
    qed
  qed
qed

lemma well_nested_UntilPast: assumes "well_nested R" shows "well_nested (UntilPast R)"
proof (rule well_nestedI)
  fix p r q assume "UntilPast R p = Some (r, q)" and r: "r \<noteq> Undefined"
  then have "UntilPast_while R (GetPos p) p = Some (r, q)" by (simp add: UntilPast_def)
  from UntilPast_while_grown[OF this assms] UntilPast_while_outcome[OF this] r
  show "grown p q" by (auto intro: grown_GetPos)
qed

lemma well_nested_UntilAt: "well_nested R \<Longrightarrow> well_nested (UntilAt R)"
  unfolding UntilAt_def by (intro well_nested_UntilPast well_nested_At)

lemma well_nested_terminals: "well_nested (Literal s)" "well_nested Digit"
  by (auto simp: well_nested_def Literal_def Digit_def grown_def intro: exI[of _ "[]"])

section \<open>Recording nodes\<close>

text \<open>
  C2 (Store/abandon symmetry). \<open>Store l R\<close> opens a node labelled \<open>l\<close> and runs \<open>R\<close>; it
  returns true with the node completed exactly when \<open>R\<close> returned true, returns false with
  the node abandoned exactly when \<open>R\<close> returned false, and throws \<open>e\<close> with the node
  abandoned exactly when \<open>R\<close> threw \<open>e\<close>. For a well-nested \<open>R\<close>: after a true result the
  stack of open nodes is the one at entry and the node is recorded, with its span, after
  the nodes completed before it; after a false result or an exception the open nodes and
  the roots are exactly those at entry, so the node is neither open nor recorded; and
  \<open>Store l R\<close> is well nested itself.
\<close>

theorem Store_completes_or_abandons:
  "(Store l R p = Some (Returns True, q) \<longleftrightarrow>
      (\<exists>m. R (StartNode l p) = Some (Returns True, m) \<and> q = CompleteNode l m)) \<and>
   (Store l R p = Some (Returns False, q) \<longleftrightarrow>
      (\<exists>m. R (StartNode l p) = Some (Returns False, m) \<and> q = AbandonNode l m)) \<and>
   (Store l R p = Some (Throws e, q) \<longleftrightarrow>
      (\<exists>m. R (StartNode l p) = Some (Throws e, m) \<and> q = AbandonNode l m)) \<and>
   (well_nested R \<longrightarrow>
      (Store l R p = Some (Returns True, q) \<longrightarrow>
         open_stack q = open_stack p \<and>
         (\<exists>ks. completed_nodes q = completed_nodes p @ [Node l (offset p) (offset q) ks])) \<and>
      (Store l R p = Some (Returns False, q) \<or> Store l R p = Some (Throws e, q) \<longrightarrow>
         open_nodes q = open_nodes p \<and> roots q = roots p) \<and>
      well_nested (Store l R))"
proof -
  have completed: "open_stack q = open_stack p \<and>
         (\<exists>ks. completed_nodes q = completed_nodes p @ [Node l (offset p) (offset q) ks])"
    if wn: "well_nested R" and run: "Store l R p = Some (Returns True, q)"
  proof -
    from run obtain m where m: "R (StartNode l p) = Some (Returns True, m)" "q = CompleteNode l m"
      by (auto simp: Store_cases)
    from well_nestedD[OF wn m(1)] obtain ks where
      ks: "open_nodes m = (l, offset p, ks) # open_nodes p" "roots m = roots p"
      by (auto simp: grown_StartNode)
    from ks(1) have "open_stack m = (l, offset p) # open_stack p" by (simp add: open_stack_def)
    with m(2) have "open_stack q = open_stack p" by simp
    moreover have "completed_nodes q = completed_nodes p @ [Node l (offset p) (offset q) ks]"
      using ks m(2)
      by (cases "open_nodes p") (auto simp: CompleteNode_def completed_nodes_def)
    ultimately show ?thesis by blast
  qed
  have gone: "open_nodes q = open_nodes p \<and> roots q = roots p"
    if wn: "well_nested R" and run: "Store l R p = Some (r, q)"
      and r: "r = Returns False \<or> r = Throws e" for r
  proof -
    from run r obtain m where m: "R (StartNode l p) = Some (r, m)" "q = AbandonNode l m"
      by (auto simp: Store_cases)
    from r have "r \<noteq> Undefined" by auto
    from well_nestedD[OF wn m(1) this] m(2) show ?thesis by (simp add: AbandonNode_restores)
  qed
  have 1: "Store l R p = Some (Returns True, q) \<longleftrightarrow>
      (\<exists>m. R (StartNode l p) = Some (Returns True, m) \<and> q = CompleteNode l m)"
    by (simp add: Store_cases)
  have 2: "Store l R p = Some (Returns False, q) \<longleftrightarrow>
      (\<exists>m. R (StartNode l p) = Some (Returns False, m) \<and> q = AbandonNode l m)"
    by (simp add: Store_cases)
  have 3: "Store l R p = Some (Throws e, q) \<longleftrightarrow>
      (\<exists>m. R (StartNode l p) = Some (Throws e, m) \<and> q = AbandonNode l m)"
    by (simp add: Store_cases)
  from 1 2 3 completed gone well_nested_Store[of R l] show ?thesis by blast
qed

theorem Store_completes_or_abandons_witness:
  "well_nested (Plus_T Digit) \<and> well_nested (Finao (Literal ''x'')) \<and>
   Store 1 (Plus_T Digit) (parser_on ''12'') =
     Some (Returns True, \<lparr>input = ''12'', offset = 2, open_nodes = [], roots = [Node 1 0 2 []]\<rparr>) \<and>
   Store 1 (Finao (Literal ''x'')) (parser_on ''a'') = Some (Throws 0, parser_on ''a'') \<and>
   well_nested (Store 1 (Finao (Literal ''x'')))"
proof -
  let ?p1 = "\<lparr>input = ''12'', offset = 2, open_nodes = [(1, 0, [])], roots = []\<rparr>"
  let ?p2 = "\<lparr>input = ''a'', offset = 0, open_nodes = [(1, 0, [])], roots = []\<rparr>"
  let ?q1 = "\<lparr>input = ''12'', offset = 2, open_nodes = [], roots = [Node 1 0 2 []]\<rparr>"
  have w1: "well_nested (Plus_T Digit)"
    by (intro well_nested_Plus_T well_nested_terminals)
  have w2: "well_nested (Finao (Literal ''x''))"
    by (intro well_nested_Finao well_nested_terminals)
  have r1: "Plus_T Digit (StartNode 1 (parser_on ''12'')) = Some (Returns True, ?p1)"
    by code_simp
  have r2: "Finao (Literal ''x'') (StartNode 1 (parser_on ''a'')) = Some (Throws 0, ?p2)"
    by code_simp
  have c: "?q1 = CompleteNode 1 ?p1"
    by (simp add: CompleteNode_def)
  have a: "parser_on ''a'' = AbandonNode 1 ?p2"
    by (simp add: AbandonNode_def parser_on_def)
  from r1 c have "\<exists>m. Plus_T Digit (StartNode 1 (parser_on ''12'')) = Some (Returns True, m) \<and>
      ?q1 = CompleteNode 1 m" by blast
  with Store_completes_or_abandons [where R = "Plus_T Digit" and l = 1 and p = "parser_on ''12''"
         and q = ?q1]
  have 1: "Store 1 (Plus_T Digit) (parser_on ''12'') = Some (Returns True, ?q1)"
    by blast
  from r2 a have "\<exists>m. Finao (Literal ''x'') (StartNode 1 (parser_on ''a'')) = Some (Throws 0, m) \<and>
      parser_on ''a'' = AbandonNode 1 m" by blast
  with w2 Store_completes_or_abandons [where R = "Finao (Literal ''x'')" and l = 1 and
         p = "parser_on ''a''" and q = "parser_on ''a''" and e = 0]
  have 2: "Store 1 (Finao (Literal ''x'')) (parser_on ''a'') = Some (Throws 0, parser_on ''a'') \<and>
           well_nested (Store 1 (Finao (Literal ''x'')))"
    by blast
  from w1 w2 1 2 show ?thesis by blast
qed

section \<open>Ordered choice\<close>

text \<open>
  C7 (ordered-choice determinism). \<open>Or\<close> returns true exactly when some alternative
  returns true after all the alternatives before it returned false, each run on the state
  the one before left; the state is then the one that alternative left, whatever the
  later alternatives are (they may even not terminate: they are not run). \<open>Or\<close> returns
  false exactly when all ten alternatives returned false. When the alternatives restore
  the position on failure, every alternative starts at the position the first started at:
  at the same offset when they restore the offset, with the same node tree as well when
  they restore the whole position, and on the very state \<open>Or\<close> was entered with when they
  are failure transparent.
\<close>

theorem Or_ordered_choice:
  "(Or T0 T1 T2 T3 T4 T5 T6 T7 T8 T9 p = Some (Returns True, q) \<longleftrightarrow>
      (\<exists>k<10. \<exists>m. all_return False (take k [T0, T1, T2, T3, T4, T5, T6, T7, T8, T9]) p = Some m \<and>
         ([T0, T1, T2, T3, T4, T5, T6, T7, T8, T9] ! k) m = Some (Returns True, q))) \<and>
   (Or T0 T1 T2 T3 T4 T5 T6 T7 T8 T9 p = Some (Returns False, q) \<longleftrightarrow>
      all_return False [T0, T1, T2, T3, T4, T5, T6, T7, T8, T9] p = Some q) \<and>
   ((\<forall>T\<in>set [T0, T1, T2, T3, T4, T5, T6, T7, T8, T9]. restores_position T) \<longrightarrow>
      (\<forall>k m. all_return False (take k [T0, T1, T2, T3, T4, T5, T6, T7, T8, T9]) p = Some m \<longrightarrow>
         GetPos m = GetPos p)) \<and>
   ((\<forall>T\<in>set [T0, T1, T2, T3, T4, T5, T6, T7, T8, T9]. restores_offset T) \<longrightarrow>
      (\<forall>k m. all_return False (take k [T0, T1, T2, T3, T4, T5, T6, T7, T8, T9]) p = Some m \<longrightarrow>
         offset m = offset p)) \<and>
   ((\<forall>T\<in>set [T0, T1, T2, T3, T4, T5, T6, T7, T8, T9]. failure_transparent T) \<longrightarrow>
      (\<forall>k m. all_return False (take k [T0, T1, T2, T3, T4, T5, T6, T7, T8, T9]) p = Some m \<longrightarrow>
         m = p))"
proof -
  let ?Ts = "[T0, T1, T2, T3, T4, T5, T6, T7, T8, T9]"
  have pos: "GetPos m = GetPos p"
    if all: "\<forall>T\<in>set ?Ts. restores_position T" and run: "all_return False (take k ?Ts) p = Some m"
    for k m
  proof -
    from all have "\<forall>T\<in>set (take k ?Ts). restores_position T"
      using set_take_subset[of k ?Ts] by blast
    from all_return_position[OF this run] show ?thesis .
  qed
  have off: "offset m = offset p"
    if all: "\<forall>T\<in>set ?Ts. restores_offset T" and run: "all_return False (take k ?Ts) p = Some m"
    for k m
  proof -
    from all have "\<forall>T\<in>set (take k ?Ts). restores_offset T"
      using set_take_subset[of k ?Ts] by blast
    from all_return_offset[OF this run] show ?thesis .
  qed
  have same: "m = p"
    if all: "\<forall>T\<in>set ?Ts. failure_transparent T" and run: "all_return False (take k ?Ts) p = Some m"
    for k m
  proof -
    from all have "\<forall>T\<in>set (take k ?Ts). failure_transparent T"
      using set_take_subset[of k ?Ts] by blast
    from all_return_unchanged[OF this run] show ?thesis .
  qed
  have 1: "Or T0 T1 T2 T3 T4 T5 T6 T7 T8 T9 p = Some (Returns True, q) \<longleftrightarrow>
      (\<exists>k<10. \<exists>m. all_return False (take k ?Ts) p = Some m \<and> (?Ts ! k) m = Some (Returns True, q))"
    by (rule Or_true)
  have 2: "Or T0 T1 T2 T3 T4 T5 T6 T7 T8 T9 p = Some (Returns False, q) \<longleftrightarrow>
      all_return False ?Ts p = Some q"
    by (rule Or_false)
  have 3: "(\<forall>T\<in>set ?Ts. restores_position T) \<longrightarrow>
      (\<forall>k m. all_return False (take k ?Ts) p = Some m \<longrightarrow> GetPos m = GetPos p)"
    using pos by blast
  have 4: "(\<forall>T\<in>set ?Ts. restores_offset T) \<longrightarrow>
      (\<forall>k m. all_return False (take k ?Ts) p = Some m \<longrightarrow> offset m = offset p)"
    using off by blast
  have 5: "(\<forall>T\<in>set ?Ts. failure_transparent T) \<longrightarrow>
      (\<forall>k m. all_return False (take k ?Ts) p = Some m \<longrightarrow> m = p)"
    using same by blast
  from 1 2 3 4 5 show ?thesis by (intro conjI)
qed

theorem Or_ordered_choice_witness:
  "Or (Literal ''a'') (Literal ''b'') (\<lambda>p. None) False_T False_T False_T False_T False_T False_T
      False_T (parser_on ''bc'') = Some (Returns True, (parser_on ''bc'')\<lparr>offset := 1\<rparr>) \<and>
   Or (Literal ''a'') (Literal ''b'') False_T False_T False_T False_T False_T False_T False_T
      False_T (parser_on ''cd'') = Some (Returns False, parser_on ''cd'') \<and>
   restores_position (Literal ''a'') \<and> restores_position (Literal ''b'') \<and>
   restores_position (False_T :: char rule) \<and>
   restores_offset (Literal ''a'') \<and> restores_offset (Literal ''b'') \<and>
   restores_offset (False_T :: char rule) \<and>
   failure_transparent (Literal ''a'') \<and> failure_transparent (Literal ''b'') \<and>
   failure_transparent (False_T :: char rule)"
proof -
  let ?Ts = "[Literal ''a'', Literal ''b'', (\<lambda>p. None), False_T, False_T, False_T, False_T, False_T,
              False_T, False_T] :: char rule list"
  let ?Us = "[Literal ''a'', Literal ''b'', False_T, False_T, False_T, False_T, False_T, False_T,
              False_T, False_T] :: char rule list"
  have r: "restores_position (Literal ''a'')" "restores_position (Literal ''b'')"
          "restores_position (False_T :: char rule)"
    by (simp_all add: restores_position_Literal failure_transparent_restores sentinels_contract)
  then have rs: "\<forall>T\<in>set ?Us. restores_position T" by simp
  from r have o: "restores_offset (Literal ''a'')" "restores_offset (Literal ''b'')"
          "restores_offset (False_T :: char rule)"
    by (simp_all add: restores_position_offset)
  then have os: "\<forall>T\<in>set ?Us. restores_offset T" by simp
  have f: "failure_transparent (Literal ''a'')" "failure_transparent (Literal ''b'')"
          "failure_transparent (False_T :: char rule)"
    by (simp_all add: terminals_contract sentinels_contract)
  then have fs: "\<forall>T\<in>set ?Us. failure_transparent T" by simp
  have a: "all_return False (take 1 ?Ts) (parser_on ''bc'') = Some (parser_on ''bc'')"
    by (simp add: Literal_def parser_on_def)
  have b: "(?Ts ! 1) (parser_on ''bc'') = Some (Returns True, (parser_on ''bc'')\<lparr>offset := 1\<rparr>)"
    by (simp add: Literal_def parser_on_def)
  have c: "all_return False ?Us (parser_on ''cd'') = Some (parser_on ''cd'')"
    by (simp add: Literal_def parser_on_def False_T_def)
  have c2: "all_return False (take 2 ?Us) (parser_on ''cd'') = Some (parser_on ''cd'')"
    by (simp add: Literal_def parser_on_def)
  from a b have "\<exists>k<10. \<exists>m. all_return False (take k ?Ts) (parser_on ''bc'') = Some m \<and>
         (?Ts ! k) m = Some (Returns True, (parser_on ''bc'')\<lparr>offset := 1\<rparr>)"
    by (intro exI[of _ 1] exI[of _ "parser_on ''bc''"] conjI) simp_all
  with Or_ordered_choice [of "Literal ''a''" "Literal ''b''" "\<lambda>p. None" False_T False_T False_T
         False_T False_T False_T False_T "parser_on ''bc''" "(parser_on ''bc'')\<lparr>offset := 1\<rparr>"]
  have 1: "Or (Literal ''a'') (Literal ''b'') (\<lambda>p. None) False_T False_T False_T False_T False_T
      False_T False_T (parser_on ''bc'') = Some (Returns True, (parser_on ''bc'')\<lparr>offset := 1\<rparr>)"
    by blast
  from c rs os fs c2 Or_ordered_choice [of "Literal ''a''" "Literal ''b''" False_T False_T False_T False_T
         False_T False_T False_T False_T "parser_on ''cd''" "parser_on ''cd''"]
  have 2: "Or (Literal ''a'') (Literal ''b'') False_T False_T False_T False_T False_T False_T
      False_T False_T (parser_on ''cd'') = Some (Returns False, parser_on ''cd'') \<and>
      GetPos (parser_on ''cd'' :: char cursor) = GetPos (parser_on ''cd'' :: char cursor)"
    by blast
  from 1 2 r o f show ?thesis by blast
qed

section \<open>Sequence\<close>

text \<open>
  C6 (sequence atomicity). \<open>Seq\<close> runs its sub-rules from left to right, each on the state
  the one before left, and stops at the first that does not return true. It returns true
  exactly when its ten sub-rules return true one after the other, and the state is then
  the one the last sub-rule left. It returns false exactly when some sub-rule returns
  false after all the ones before it returned true; the later sub-rules are not run, and
  the state is the one the failing sub-rule left with the position saved at entry
  restored. After a false result the offset, the open nodes and the completed nodes are
  therefore those at entry, whatever the sub-rules consumed or recorded; and when the
  sub-rules do not replace the input, the state is exactly the one at entry.
\<close>

theorem Seq_atomicity:
  "(Seq T0 T1 T2 T3 T4 T5 T6 T7 T8 T9 p = Some (Returns True, q) \<longleftrightarrow>
      all_return True [T0, T1, T2, T3, T4, T5, T6, T7, T8, T9] p = Some q) \<and>
   (Seq T0 T1 T2 T3 T4 T5 T6 T7 T8 T9 p = Some (Returns False, q) \<longleftrightarrow>
      (\<exists>k<10. \<exists>m m'.
         all_return True (take k [T0, T1, T2, T3, T4, T5, T6, T7, T8, T9]) p = Some m \<and>
         ([T0, T1, T2, T3, T4, T5, T6, T7, T8, T9] ! k) m = Some (Returns False, m') \<and>
         q = SetPos (GetPos p) m')) \<and>
   (Seq T0 T1 T2 T3 T4 T5 T6 T7 T8 T9 p = Some (Returns False, q) \<longrightarrow>
      GetPos q = GetPos p \<and> offset q = offset p \<and> open_nodes q = open_nodes p \<and>
      roots q = roots p \<and> open_stack q = open_stack p) \<and>
   ((\<forall>T\<in>set [T0, T1, T2, T3, T4, T5, T6, T7, T8, T9]. keeps_input T) \<longrightarrow>
      Seq T0 T1 T2 T3 T4 T5 T6 T7 T8 T9 p = Some (Returns False, q) \<longrightarrow> q = p)"
proof -
  let ?Ts = "[T0, T1, T2, T3, T4, T5, T6, T7, T8, T9]"
  have 1: "Seq T0 T1 T2 T3 T4 T5 T6 T7 T8 T9 p = Some (Returns True, q) \<longleftrightarrow>
      all_return True ?Ts p = Some q"
    by (rule Seq_true)
  have 2: "Seq T0 T1 T2 T3 T4 T5 T6 T7 T8 T9 p = Some (Returns False, q) \<longleftrightarrow>
      (\<exists>k<10. \<exists>m m'. all_return True (take k ?Ts) p = Some m \<and>
         (?Ts ! k) m = Some (Returns False, m') \<and> q = SetPos (GetPos p) m')"
    by (rule Seq_false)
  have 3: "Seq T0 T1 T2 T3 T4 T5 T6 T7 T8 T9 p = Some (Returns False, q) \<longrightarrow>
      GetPos q = GetPos p \<and> offset q = offset p \<and> open_nodes q = open_nodes p \<and>
      roots q = roots p \<and> open_stack q = open_stack p"
  proof
    assume "Seq T0 T1 T2 T3 T4 T5 T6 T7 T8 T9 p = Some (Returns False, q)"
    then obtain m' where "q = SetPos (GetPos p) m'"
      unfolding Seq_false by blast
    then show "GetPos q = GetPos p \<and> offset q = offset p \<and> open_nodes q = open_nodes p \<and>
      roots q = roots p \<and> open_stack q = open_stack p"
      by simp
  qed
  have 4: "(\<forall>T\<in>set ?Ts. keeps_input T) \<longrightarrow>
      Seq T0 T1 T2 T3 T4 T5 T6 T7 T8 T9 p = Some (Returns False, q) \<longrightarrow> q = p"
    using failure_transparent_Seq[of T0 T1 T2 T3 T4 T5 T6 T7 T8 T9]
    by (blast dest: failure_transparentD)
  from 1 2 3 4 show ?thesis by (intro conjI)
qed

theorem Seq_atomicity_witness:
  "Seq (Store 1 (Plus_T Digit)) EndOfInput_T True_T True_T True_T True_T True_T True_T True_T True_T
     (parser_on ''123'') =
     Some (Returns True, \<lparr>input = ''123'', offset = 3, open_nodes = [], roots = [Node 1 0 3 []]\<rparr>) \<and>
   Seq (Store 1 (Plus_T Digit)) EndOfInput_T True_T True_T True_T True_T True_T True_T True_T True_T
     (parser_on ''12a'') = Some (Returns False, parser_on ''12a'') \<and>
   keeps_input (Store 1 (Plus_T Digit)) \<and> keeps_input (EndOfInput_T :: char rule) \<and>
   keeps_input (True_T :: char rule) \<and>
   roots (parser_on ''12a'' :: char cursor) = []"
proof -
  let ?Ts = "[Store 1 (Plus_T Digit), EndOfInput_T, True_T, True_T, True_T, True_T, True_T, True_T,
              True_T, True_T] :: char rule list"
  let ?q = "\<lparr>input = ''123'', offset = 3, open_nodes = [], roots = [Node 1 0 3 []]\<rparr>"
  let ?m = "\<lparr>input = ''12a'', offset = 2, open_nodes = [], roots = [Node 1 0 2 []]\<rparr>"
  have k: "keeps_input (Store 1 (Plus_T Digit))" "keeps_input (EndOfInput_T :: char rule)"
          "keeps_input (True_T :: char rule)"
    by (simp_all add: keeps_input_Store keeps_input_Plus_T terminals_contract sentinels_contract)
  then have ks: "\<forall>T\<in>set ?Ts. keeps_input T" by simp
  have run: "all_return True ?Ts (parser_on ''123'') = Some ?q"
    by code_simp
  have a: "all_return True (take 1 ?Ts) (parser_on ''12a'') = Some ?m"
    by code_simp
  have b: "(?Ts ! 1) ?m = Some (Returns False, ?m)"
    by code_simp
  have c: "parser_on ''12a'' = SetPos (GetPos (parser_on ''12a'')) ?m"
    by (simp add: SetPos_def GetPos_def parser_on_def)
  have "(1::nat) < 10 \<and> all_return True (take 1 ?Ts) (parser_on ''12a'') = Some ?m \<and>
        (?Ts ! 1) ?m = Some (Returns False, ?m) \<and>
        parser_on ''12a'' = SetPos (GetPos (parser_on ''12a'')) ?m"
    by (intro conjI a b c) simp
  then have ex: "\<exists>k<10. \<exists>m m'. all_return True (take k ?Ts) (parser_on ''12a'') = Some m \<and>
        (?Ts ! k) m = Some (Returns False, m') \<and>
        parser_on ''12a'' = SetPos (GetPos (parser_on ''12a'')) m'"
    by blast
  from run Seq_atomicity [of "Store 1 (Plus_T Digit)" EndOfInput_T True_T True_T True_T True_T
         True_T True_T True_T True_T "parser_on ''123''" ?q]
  have 1: "Seq (Store 1 (Plus_T Digit)) EndOfInput_T True_T True_T True_T True_T True_T True_T
     True_T True_T (parser_on ''123'') = Some (Returns True, ?q)"
    by blast
  from ex ks Seq_atomicity [of "Store 1 (Plus_T Digit)" EndOfInput_T True_T True_T True_T
         True_T True_T True_T True_T True_T "parser_on ''12a''" "parser_on ''12a''"]
  have 2: "Seq (Store 1 (Plus_T Digit)) EndOfInput_T True_T True_T True_T True_T True_T True_T
     True_T True_T (parser_on ''12a'') = Some (Returns False, parser_on ''12a'')"
    by blast
  have 3: "roots (parser_on ''12a'' :: char cursor) = []"
    by (simp add: parser_on_def)
  from 1 2 k 3 show ?thesis by blast
qed

section \<open>Failure transparency\<close>

text \<open>
  C1 (failure transparency). A rule restores the position when every run of it that
  returns false leaves the offset, the open nodes and the completed nodes as they were at
  entry; it is failure transparent when such a run leaves the whole state as it was. If
  the sub-rules restore the position, every rule of the engine over them restores the
  position; \<open>Finao\<close>, \<open>NotAt\<close>, \<open>Seq\<close>, \<open>Star\<close>, \<open>Opt\<close>, \<open>Repeat\<close>, \<open>UntilPast\<close> and \<open>UntilAt\<close>
  do so over any sub-rules at all. If the sub-rules are failure transparent and do not
  replace the input, every rule of the engine over them is failure transparent: a match
  that returns false leaves no trace.
\<close>

theorem failure_transparency:
  "(restores_position R \<and> (\<forall>T\<in>set [T0, T1, T2, T3, T4, T5, T6, T7, T8, T9]. restores_position T) \<longrightarrow>
      restores_position (Store l R) \<and> restores_position (Finao R) \<and>
      restores_position True_T \<and> restores_position False_T \<and>
      restores_position EndOfInput_T \<and>
      restores_position (At R) \<and> restores_position (NotAt R) \<and>
      restores_position (Or T0 T1 T2 T3 T4 T5 T6 T7 T8 T9) \<and>
      restores_position (Seq T0 T1 T2 T3 T4 T5 T6 T7 T8 T9) \<and>
      restores_position (Star R) \<and> restores_position (Plus_T R) \<and>
      restores_position (Opt R) \<and> restores_position (Repeat R N) \<and>
      restores_position (UntilPast R) \<and> restores_position (UntilAt R)) \<and>
   (restores_position (Finao R) \<and> restores_position (NotAt R) \<and>
    restores_position (Seq T0 T1 T2 T3 T4 T5 T6 T7 T8 T9) \<and>
    restores_position (Star R) \<and> restores_position (Opt R) \<and> restores_position (Repeat R N) \<and>
    restores_position (UntilPast R) \<and> restores_position (UntilAt R)) \<and>
   (failure_transparent R \<and> keeps_input R \<and>
    (\<forall>T\<in>set [T0, T1, T2, T3, T4, T5, T6, T7, T8, T9]. failure_transparent T \<and> keeps_input T) \<longrightarrow>
      failure_transparent (Store l R) \<and> failure_transparent (Finao R) \<and>
      failure_transparent True_T \<and> failure_transparent False_T \<and>
      failure_transparent EndOfInput_T \<and>
      failure_transparent (At R) \<and> failure_transparent (NotAt R) \<and>
      failure_transparent (Or T0 T1 T2 T3 T4 T5 T6 T7 T8 T9) \<and>
      failure_transparent (Seq T0 T1 T2 T3 T4 T5 T6 T7 T8 T9) \<and>
      failure_transparent (Star R) \<and> failure_transparent (Plus_T R) \<and>
      failure_transparent (Opt R) \<and> failure_transparent (Repeat R N) \<and>
      failure_transparent (UntilPast R) \<and> failure_transparent (UntilAt R))"
proof -
  let ?Ts = "[T0, T1, T2, T3, T4, T5, T6, T7, T8, T9]"
  have always: "restores_position (Finao R) \<and> restores_position (NotAt R) \<and>
    restores_position (Seq T0 T1 T2 T3 T4 T5 T6 T7 T8 T9) \<and>
    restores_position (Star R) \<and> restores_position (Opt R) \<and> restores_position (Repeat R N) \<and>
    restores_position (UntilPast R) \<and> restores_position (UntilAt R)"
    unfolding UntilAt_def
    by (intro conjI restores_position_Finao restores_position_NotAt restores_position_Seq
          restores_position_Star restores_position_Opt restores_position_Repeat
          restores_position_UntilPast)
  have position: "restores_position (Store l R) \<and> restores_position (Finao R) \<and>
      restores_position True_T \<and> restores_position False_T \<and>
      restores_position EndOfInput_T \<and>
      restores_position (At R) \<and> restores_position (NotAt R) \<and>
      restores_position (Or T0 T1 T2 T3 T4 T5 T6 T7 T8 T9) \<and>
      restores_position (Seq T0 T1 T2 T3 T4 T5 T6 T7 T8 T9) \<and>
      restores_position (Star R) \<and> restores_position (Plus_T R) \<and>
      restores_position (Opt R) \<and> restores_position (Repeat R N) \<and>
      restores_position (UntilPast R) \<and> restores_position (UntilAt R)"
    if r: "restores_position R" and ts: "\<forall>T\<in>set ?Ts. restores_position T"
    unfolding UntilAt_def
    by (intro conjI restores_position_Store[OF r] restores_position_Finao
          restores_position_sentinels restores_position_At[OF r] restores_position_NotAt
          restores_position_Or[OF ts] restores_position_Seq restores_position_Star
          restores_position_Plus_T[OF r] restores_position_Opt restores_position_Repeat
          restores_position_UntilPast)
  have transparent: "failure_transparent (Store l R) \<and> failure_transparent (Finao R) \<and>
      failure_transparent True_T \<and> failure_transparent False_T \<and>
      failure_transparent EndOfInput_T \<and>
      failure_transparent (At R) \<and> failure_transparent (NotAt R) \<and>
      failure_transparent (Or T0 T1 T2 T3 T4 T5 T6 T7 T8 T9) \<and>
      failure_transparent (Seq T0 T1 T2 T3 T4 T5 T6 T7 T8 T9) \<and>
      failure_transparent (Star R) \<and> failure_transparent (Plus_T R) \<and>
      failure_transparent (Opt R) \<and> failure_transparent (Repeat R N) \<and>
      failure_transparent (UntilPast R) \<and> failure_transparent (UntilAt R)"
    if f: "failure_transparent R" and k: "keeps_input R"
      and ts: "\<forall>T\<in>set ?Ts. failure_transparent T \<and> keeps_input T"
  proof -
    from ts have fs: "\<forall>T\<in>set ?Ts. failure_transparent T" and ks: "\<forall>T\<in>set ?Ts. keeps_input T"
      by blast+
    show ?thesis
      unfolding UntilAt_def
      by (intro conjI failure_transparent_Store[OF f] failure_transparent_Finao
            sentinels_contract failure_transparent_At[OF f] failure_transparent_NotAt[OF k]
            failure_transparent_Or[OF fs] failure_transparent_Seq[OF ks] failure_transparent_Star
            failure_transparent_Plus_T[OF f] failure_transparent_Opt
            failure_transparent_Repeat[OF k] failure_transparent_UntilPast[OF k]
            failure_transparent_UntilPast[OF keeps_input_At[OF k]])
  qed
  from always position transparent show ?thesis by blast
qed

theorem failure_transparency_witness:
  "restores_position Digit \<and> failure_transparent Digit \<and> keeps_input Digit \<and>
   restores_position (Store 1 (Plus_T Digit)) \<and> failure_transparent (Store 1 (Plus_T Digit)) \<and>
   keeps_input (Store 1 (Plus_T Digit)) \<and>
   restores_position (EndOfInput_T :: char rule) \<and> failure_transparent (EndOfInput_T :: char rule) \<and>
   keeps_input (EndOfInput_T :: char rule) \<and>
   restores_position (True_T :: char rule) \<and> failure_transparent (True_T :: char rule) \<and>
   keeps_input (True_T :: char rule) \<and>
   restores_position (Store 1 Digit) \<and> failure_transparent (Store 1 Digit) \<and>
   failure_transparent (NotAt Digit) \<and>
   restores_position (Seq (Store 1 (Plus_T Digit)) EndOfInput_T True_T True_T True_T True_T
     True_T True_T True_T True_T) \<and>
   failure_transparent (Seq (Store 1 (Plus_T Digit)) EndOfInput_T True_T True_T True_T True_T
     True_T True_T True_T True_T) \<and>
   failure_transparent (Repeat Digit 3) \<and> failure_transparent (UntilPast Digit) \<and>
   failure_transparent (UntilAt Digit) \<and>
   Seq (Store 1 (Plus_T Digit)) EndOfInput_T True_T True_T True_T True_T True_T True_T True_T True_T
     (parser_on ''12a'') = Some (Returns False, parser_on ''12a'')"
proof -
  let ?Ts = "[Store 1 (Plus_T Digit), EndOfInput_T, True_T, True_T, True_T, True_T, True_T, True_T,
              True_T, True_T] :: char rule list"
  have d: "restores_position Digit" "failure_transparent Digit" "keeps_input Digit"
    by (simp_all add: restores_position_terminals terminals_contract)
  have s: "restores_position (Store 1 (Plus_T Digit))" "failure_transparent (Store 1 (Plus_T Digit))"
          "keeps_input (Store 1 (Plus_T Digit))"
    by (simp_all add: restores_position_Store restores_position_Plus_T failure_transparent_Store
          failure_transparent_Plus_T keeps_input_Store keeps_input_Plus_T d)
  have e: "restores_position (EndOfInput_T :: char rule)"
          "failure_transparent (EndOfInput_T :: char rule)" "keeps_input (EndOfInput_T :: char rule)"
    by (simp_all add: restores_position_sentinels sentinels_contract)
  have t: "restores_position (True_T :: char rule)"
          "failure_transparent (True_T :: char rule)" "keeps_input (True_T :: char rule)"
    by (simp_all add: restores_position_sentinels sentinels_contract)
  from s e t have ps: "\<forall>T\<in>set ?Ts. restores_position T"
    and fs: "\<forall>T\<in>set ?Ts. failure_transparent T \<and> keeps_input T"
    by simp_all
  have run: "Seq (Store 1 (Plus_T Digit)) EndOfInput_T True_T True_T True_T True_T True_T True_T
     True_T True_T (parser_on ''12a'') = Some (Returns False, parser_on ''12a'')"
    by code_simp
  from d ps fs failure_transparency [of Digit "Store 1 (Plus_T Digit)" EndOfInput_T True_T True_T
         True_T True_T True_T True_T True_T True_T 1 3]
  have "restores_position (Store 1 Digit) \<and> failure_transparent (Store 1 Digit) \<and>
   failure_transparent (NotAt Digit) \<and>
   restores_position (Seq (Store 1 (Plus_T Digit)) EndOfInput_T True_T True_T True_T True_T
     True_T True_T True_T True_T) \<and>
   failure_transparent (Seq (Store 1 (Plus_T Digit)) EndOfInput_T True_T True_T True_T True_T
     True_T True_T True_T True_T) \<and>
   failure_transparent (Repeat Digit 3) \<and> failure_transparent (UntilPast Digit) \<and>
   failure_transparent (UntilAt Digit)"
    by blast
  with d s e t run show ?thesis by blast
qed

section \<open>Repetition\<close>

lemma Star_while_fixpoint:
  assumes "Star_while R p = Some y" shows "R p \<noteq> Some (Returns True, p)"
  using assms
proof (induction R p y rule: Star_while.raw_induct[rotated 1, consumes 1, case_names step])
  case (step S R p y)
  show ?case
  proof
    assume same: "R p = Some (Returns True, p)"
    with step(2) have "S R p = Some y" by simp
    from step(1)[OF this] same show False by simp
  qed
qed

lemma Star_while_stuck: "R p = Some (Returns True, p) \<Longrightarrow> Star_while R p = None"
  using Star_while_fixpoint[of R p] by (cases "Star_while R p") auto

text \<open>
  The claim C5 as it is written, that \<open>Star(R)\<close> terminates for every rule, fails for a
  rule that matches without consuming: the loop \<^verbatim>\<open>while (Rule_T::Match(p)) { }\<close> has no
  other exit than a failed match.
\<close>

theorem Star_True_T_never_returns: "Star True_T (parser_on ''a'') = None"
proof -
  have "Star_while True_T (parser_on ''a'') = None"
    by (rule Star_while_stuck) (simp add: True_T_def)
  then show ?thesis by (simp add: Star_def AtEnd_def parser_on_def)
qed

lemma all_return_append_eq:
  "all_return c (Rs @ Ss) p =
     (case all_return c Rs p of None \<Rightarrow> None | Some m \<Rightarrow> all_return c Ss m)"
  by (induction Rs arbitrary: p) (auto split: option.splits outcome.splits)

lemma replicate_Suc_snoc: "replicate (Suc n) x = replicate n x @ [x]"
  by (simp add: replicate_append_same)

lemma all_return_replicate_Suc:
  "all_return c (replicate n R) p = Some m \<Longrightarrow>
     all_return c (replicate (Suc n) R) p = all_return c [R] m"
  by (simp only: replicate_Suc_snoc all_return_append_eq option.case)

lemma all_return_Cons_replicate:
  "R p = Some (Returns c, m) \<Longrightarrow>
     all_return c (replicate (Suc n) R) p = all_return c (replicate n R) m"
  by simp

lemma all_return_Cons_cases:
  "all_return c (R # Rs) p = Some m \<Longrightarrow>
     \<exists>p'. R p = Some (Returns c, p') \<and> all_return c Rs p' = Some m"
  by (auto split: option.splits outcome.splits if_splits)

lemma Star_while_skip:
  "all_return True (replicate n R) p = Some m \<Longrightarrow> Star_while R p = Star_while R m"
proof (induction n arbitrary: p)
  case 0
  then show ?case by simp
next
  case (Suc n)
  from Suc.prems have "all_return True (R # replicate n R) p = Some m" by simp
  from all_return_Cons_cases[OF this] obtain p' where
    p': "R p = Some (Returns True, p')" "all_return True (replicate n R) p' = Some m"
    by blast
  from p'(1) have "Star_while R p = Star_while R p'" by (subst Star_while.simps) simp
  with Suc.IH[OF p'(2)] show ?case by simp
qed

lemma Star_while_last:
  "R m = Some (r, q) \<Longrightarrow> r \<noteq> Returns True \<Longrightarrow>
     Star_while R m = Some (if r = Returns False then Returns True else r, q)"
  by (subst Star_while.simps) (cases r; simp)

lemma Star_while_run:
  assumes "Star_while R p = Some y"
  shows "(fst y = Returns True \<longrightarrow>
           (\<exists>n m. all_return True (replicate n R) p = Some m \<and> R m = Some (Returns False, snd y))) \<and>
         (fst y \<noteq> Returns True \<longrightarrow>
           (\<exists>n m. all_return True (replicate n R) p = Some m \<and> R m = Some y))"
  using assms
proof (induction R p y rule: Star_while.raw_induct[rotated 1, consumes 1, case_names step])
  case (step S R p y)
  show ?case
  proof (cases "R p")
    case None
    with step(2) show ?thesis by simp
  next
    case (Some a)
    obtain r q where a: "a = (r, q)" by (cases a)
    have zero: "all_return True (replicate 0 R) p = Some p" by simp
    show ?thesis
    proof (cases r)
      case (Returns b)
      show ?thesis
      proof (cases b)
        case True
        with step(2) Some a Returns have "S R q = Some y" by simp
        from step(1)[OF this]
        have ih: "(fst y = Returns True \<longrightarrow>
           (\<exists>n m. all_return True (replicate n R) q = Some m \<and> R m = Some (Returns False, snd y))) \<and>
         (fst y \<noteq> Returns True \<longrightarrow>
           (\<exists>n m. all_return True (replicate n R) q = Some m \<and> R m = Some y))" .
        from Some a Returns True have rp: "R p = Some (Returns True, q)" by simp
        have more: "\<exists>n m. all_return True (replicate n R) p = Some m \<and> R m = Some z"
          if "\<exists>n m. all_return True (replicate n R) q = Some m \<and> R m = Some z" for z
        proof -
          from that obtain n m where
            nm: "all_return True (replicate n R) q = Some m" "R m = Some z"
            by blast
          from all_return_Cons_replicate[where R = R and p = p and n = n, OF rp] nm(1)
          have "all_return True (replicate (Suc n) R) p = Some m" by simp
          with nm(2) show ?thesis by blast
        qed
        from ih more[of "(Returns False, snd y)"] more[of y] show ?thesis by blast
      next
        case False
        with step(2) Some a Returns have y: "y = (Returns True, q)" by simp
        from Some a Returns False y have "R p = Some (Returns False, snd y)" by simp
        with zero have "\<exists>n m. all_return True (replicate n R) p = Some m \<and>
            R m = Some (Returns False, snd y)" by blast
        with y show ?thesis by simp
      qed
    next
      case (Throws e)
      with step(2) Some a have "R p = Some y" "fst y \<noteq> Returns True" by auto
      with zero show ?thesis by blast
    next
      case Undefined
      with step(2) Some a have "R p = Some y" "fst y \<noteq> Returns True" by auto
      with zero show ?thesis by blast
    qed
  qed
qed

lemma Star_while_terminates:
  assumes "terminates R" "consumes R"
  shows "\<exists>y. Star_while R p = Some y"
proof (induction "remaining p" arbitrary: p rule: less_induct)
  case less
  from assms(1) have "R p \<noteq> None" by (simp add: terminates_def)
  then obtain r q where rq: "R p = Some (r, q)" by (cases "R p") auto
  show ?case
  proof (cases "r = Returns True")
    case True
    with rq assms(2) have "remaining q < remaining p" by (simp add: consumes_def)
    from less[OF this] obtain y where "Star_while R q = Some y" by blast
    with rq True have "Star_while R p = Some y" by (subst Star_while.simps) simp
    then show ?thesis by blast
  next
    case False
    with rq have "\<exists>y. Star_while R p = Some y"
      by (subst Star_while.simps) (cases r; simp)
    then show ?thesis .
  qed
qed

lemma consumes_not_at_end:
  assumes "consumes R" "AtEnd p" shows "R p \<noteq> Some (Returns True, q)"
proof
  assume "R p = Some (Returns True, q)"
  with assms(1) have "remaining q < remaining p" by (simp add: consumes_def)
  with assms(2) show False by (simp add: remaining_def AtEnd_def)
qed

lemma all_return_single_fails: "R p = Some (Returns (\<not> c), q) \<Longrightarrow> all_return c [R] p = None"
  by auto

lemma Star_throws:
  "Star R p = Some (Throws e, q) \<longleftrightarrow>
     \<not> AtEnd p \<and> (\<exists>n m. all_return True (replicate n R) p = Some m \<and> R m = Some (Throws e, q))"
proof
  assume run: "Star R p = Some (Throws e, q)"
  then have ne: "\<not> AtEnd p" by (auto simp: Star_def split: if_splits)
  with run have "Star_while R p = Some (Throws e, q)" by (simp add: Star_def)
  from Star_while_run[OF this] ne
  show "\<not> AtEnd p \<and> (\<exists>n m. all_return True (replicate n R) p = Some m \<and> R m = Some (Throws e, q))"
    by simp
next
  assume "\<not> AtEnd p \<and> (\<exists>n m. all_return True (replicate n R) p = Some m \<and> R m = Some (Throws e, q))"
  then obtain n m where ne: "\<not> AtEnd p" and nm: "all_return True (replicate n R) p = Some m"
    and m: "R m = Some (Throws e, q)" by blast
  from Star_while_last[where R = R and m = m, OF m] have "Star_while R m = Some (Throws e, q)" by simp
  with Star_while_skip[OF nm] ne show "Star R p = Some (Throws e, q)" by (simp add: Star_def)
qed

lemma Star_true:
  "Star R p = Some (Returns True, q) \<longleftrightarrow>
     (AtEnd p \<and> q = p) \<or>
     (\<not> AtEnd p \<and>
      (\<exists>n m. all_return True (replicate n R) p = Some m \<and> R m = Some (Returns False, q)))"
proof (cases "AtEnd p")
  case True
  then show ?thesis by (auto simp: Star_def)
next
  case False
  have "Star_while R p = Some (Returns True, q) \<longleftrightarrow>
     (\<exists>n m. all_return True (replicate n R) p = Some m \<and> R m = Some (Returns False, q))"
  proof
    assume "Star_while R p = Some (Returns True, q)"
    from Star_while_run[OF this]
    show "\<exists>n m. all_return True (replicate n R) p = Some m \<and> R m = Some (Returns False, q)"
      by simp
  next
    assume "\<exists>n m. all_return True (replicate n R) p = Some m \<and> R m = Some (Returns False, q)"
    then obtain n m where nm: "all_return True (replicate n R) p = Some m"
      and m: "R m = Some (Returns False, q)" by blast
    from Star_while_last[where R = R and m = m, OF m] have "Star_while R m = Some (Returns True, q)" by simp
    with Star_while_skip[OF nm] show "Star_while R p = Some (Returns True, q)" by simp
  qed
  with False show ?thesis by (simp add: Star_def)
qed

text \<open>
  C5 (greedy repetition), as the code has it. \<open>Star R\<close> never returns false, and at the
  end of the input it returns true without running \<open>R\<close>. For a rule \<open>R\<close> that always
  terminates and consumes input whenever it matches, \<open>Star R\<close> terminates, and it returns
  true when \<open>R\<close> neither throws nor leaves the cursor contract. On a state that is not at
  the end of the input, \<open>Star R\<close> returns true exactly when \<open>R\<close> matches \<open>n\<close> times in a
  row and then returns false, with the state that failed attempt left (the position
  reached by the \<open>n\<close> matches when \<open>R\<close> restores the position on failure), and \<open>n + 1\<close>
  matches in a row are not possible; it throws exactly when \<open>R\<close> throws after \<open>n\<close>
  matches in a row. A rule \<open>X\<close> that fails after \<open>Star R\<close> makes the enclosing sequence
  fail, with no second attempt at fewer repetitions. Where \<open>R\<close> matches and leaves the
  state as it found it, on a state that is not at the end of the input, \<open>Star R\<close> does
  not return.
\<close>

theorem Star_greedy:
  "Star R p \<noteq> Some (Returns False, q) \<and>
   (AtEnd p \<longrightarrow> Star R p = Some (Returns True, p)) \<and>
   (terminates R \<and> consumes R \<longrightarrow>
      Star R p \<noteq> None \<and>
      ((\<forall>s. \<exists>b s'. R s = Some (Returns b, s')) \<longrightarrow> (\<exists>q'. Star R p = Some (Returns True, q')))) \<and>
   (\<not> AtEnd p \<longrightarrow>
      (Star R p = Some (Returns True, q) \<longleftrightarrow>
         (\<exists>n m. all_return True (replicate n R) p = Some m \<and> R m = Some (Returns False, q))) \<and>
      (Star R p = Some (Throws e, q) \<longleftrightarrow>
         (\<exists>n m. all_return True (replicate n R) p = Some m \<and> R m = Some (Throws e, q)))) \<and>
   (consumes R \<longrightarrow> Star R p = Some (Returns True, q) \<longrightarrow>
      (\<exists>n m. all_return True (replicate n R) p = Some m \<and>
             all_return True (replicate (Suc n) R) p = None \<and>
             (restores_offset R \<longrightarrow> offset q = offset m) \<and>
             (restores_position R \<longrightarrow> GetPos q = GetPos m) \<and>
             (failure_transparent R \<longrightarrow> q = m))) \<and>
   (Star R p = Some (Returns True, q) \<longrightarrow>
      (\<forall>X q'. X q = Some (Returns False, q') \<longrightarrow>
         Seq (Star R) X True_T True_T True_T True_T True_T True_T True_T True_T p =
           Some (Returns False, SetPos (GetPos p) q'))) \<and>
   (\<not> AtEnd p \<and> R p = Some (Returns True, p) \<longrightarrow> Star R p = None)"
proof -
  have 1: "Star R p \<noteq> Some (Returns False, q)" by (rule Star_never_false)
  have 2: "AtEnd p \<longrightarrow> Star R p = Some (Returns True, p)" by (simp add: Star_def)
  have 3: "Star R p \<noteq> None \<and>
      ((\<forall>s. \<exists>b s'. R s = Some (Returns b, s')) \<longrightarrow> (\<exists>q'. Star R p = Some (Returns True, q')))"
    if t: "terminates R" and c: "consumes R"
  proof
    show "Star R p \<noteq> None"
      using Star_while_terminates[OF t c, of p] by (auto simp: Star_def)
    show "(\<forall>s. \<exists>b s'. R s = Some (Returns b, s')) \<longrightarrow> (\<exists>q'. Star R p = Some (Returns True, q'))"
    proof
      assume only: "\<forall>s. \<exists>b s'. R s = Some (Returns b, s')"
      show "\<exists>q'. Star R p = Some (Returns True, q')"
      proof (cases "AtEnd p")
        case True
        then show ?thesis by (simp add: Star_def)
      next
        case False
        from Star_while_terminates[OF t c, of p] obtain r q' where
          y: "Star_while R p = Some (r, q')" by auto
        have "r = Returns True"
        proof (rule ccontr)
          assume "r \<noteq> Returns True"
          with Star_while_run[OF y] obtain m where "R m = Some (r, q')" by auto
          with only obtain b where "r = Returns b" by (metis option.inject prod.inject)
          with \<open>r \<noteq> Returns True\<close> have "r = Returns False" by (cases b) auto
          with Star_while_outcome[OF y] show False by simp
        qed
        with y False show ?thesis by (simp add: Star_def)
      qed
    qed
  qed
  have 4: "(Star R p = Some (Returns True, q) \<longleftrightarrow>
         (\<exists>n m. all_return True (replicate n R) p = Some m \<and> R m = Some (Returns False, q))) \<and>
      (Star R p = Some (Throws e, q) \<longleftrightarrow>
         (\<exists>n m. all_return True (replicate n R) p = Some m \<and> R m = Some (Throws e, q)))"
    if "\<not> AtEnd p"
    using that by (simp add: Star_true Star_throws)
  have 5: "\<exists>n m. all_return True (replicate n R) p = Some m \<and>
             all_return True (replicate (Suc n) R) p = None \<and>
             (restores_offset R \<longrightarrow> offset q = offset m) \<and>
             (restores_position R \<longrightarrow> GetPos q = GetPos m) \<and>
             (failure_transparent R \<longrightarrow> q = m)"
    if c: "consumes R" and ret: "Star R p = Some (Returns True, q)"
  proof (cases "AtEnd p")
    case True
    with ret have "q = p" by (simp add: Star_def)
    moreover have "all_return True (replicate (Suc 0) R) p = None"
      using consumes_not_at_end[OF c True]
      by (auto split: option.splits outcome.splits)
    moreover have "all_return True (replicate 0 R) p = Some p" by simp
    ultimately show ?thesis by blast
  next
    case False
    with ret obtain n m where
      nm: "all_return True (replicate n R) p = Some m" "R m = Some (Returns False, q)"
      unfolding Star_true by blast
    from nm(2) have "restores_offset R \<longrightarrow> offset q = offset m"
      unfolding restores_offset_def by blast
    moreover from nm(2) have "restores_position R \<longrightarrow> GetPos q = GetPos m"
      unfolding restores_position_def by blast
    moreover from nm(2) have "failure_transparent R \<longrightarrow> q = m"
      unfolding failure_transparent_def by blast
    moreover from all_return_replicate_Suc[OF nm(1)] all_return_single_fails[of R m True q] nm(2)
    have "all_return True (replicate (Suc n) R) p = None" by simp
    ultimately show ?thesis using nm(1) by blast
  qed
  have 6: "Seq (Star R) X True_T True_T True_T True_T True_T True_T True_T True_T p =
                 Some (Returns False, SetPos (GetPos p) q')"
    if "Star R p = Some (Returns True, q)" "X q = Some (Returns False, q')" for X q'
    using that by (simp add: Seq_def and_also_True_T and_also_def)
  have 7: "\<not> AtEnd p \<and> R p = Some (Returns True, p) \<longrightarrow> Star R p = None"
    by (simp add: Star_def Star_while_stuck)
  from 3 have c3: "terminates R \<and> consumes R \<longrightarrow>
      Star R p \<noteq> None \<and>
      ((\<forall>s. \<exists>b s'. R s = Some (Returns b, s')) \<longrightarrow> (\<exists>q'. Star R p = Some (Returns True, q')))"
    by blast
  from 4 have c4: "\<not> AtEnd p \<longrightarrow>
      (Star R p = Some (Returns True, q) \<longleftrightarrow>
         (\<exists>n m. all_return True (replicate n R) p = Some m \<and> R m = Some (Returns False, q))) \<and>
      (Star R p = Some (Throws e, q) \<longleftrightarrow>
         (\<exists>n m. all_return True (replicate n R) p = Some m \<and> R m = Some (Throws e, q)))"
    by blast
  from 5 have c5: "consumes R \<longrightarrow> Star R p = Some (Returns True, q) \<longrightarrow>
      (\<exists>n m. all_return True (replicate n R) p = Some m \<and>
             all_return True (replicate (Suc n) R) p = None \<and>
             (restores_offset R \<longrightarrow> offset q = offset m) \<and>
             (restores_position R \<longrightarrow> GetPos q = GetPos m) \<and>
             (failure_transparent R \<longrightarrow> q = m))"
    by blast
  from 6 have c6: "Star R p = Some (Returns True, q) \<longrightarrow>
      (\<forall>X q'. X q = Some (Returns False, q') \<longrightarrow>
         Seq (Star R) X True_T True_T True_T True_T True_T True_T True_T True_T p =
           Some (Returns False, SetPos (GetPos p) q'))"
    by blast
  from 1 2 c3 c4 c5 c6 7 show ?thesis by (intro conjI)
qed

lemma Digit_contract:
  "terminates Digit" "consumes Digit" "restores_position Digit"
  "\<forall>s. \<exists>b s'. Digit s = Some (Returns b, s')"
  by (auto simp: terminates_def consumes_def restores_position_terminals Digit_def remaining_def
        AtEnd_def)

theorem Star_greedy_witness:
  "terminates Digit \<and> consumes Digit \<and> restores_position Digit \<and>
   Star Digit (parser_on ''12a'') = Some (Returns True, (parser_on ''12a'')\<lparr>offset := 2\<rparr>) \<and>
   (\<exists>n m. all_return True (replicate n Digit) (parser_on ''12a'') = Some m \<and>
      all_return True (replicate (Suc n) Digit) (parser_on ''12a'') = None \<and>
      GetPos ((parser_on ''12a'')\<lparr>offset := 2\<rparr>) = GetPos m) \<and>
   Seq (Star Digit) (Literal ''2'') True_T True_T True_T True_T True_T True_T True_T True_T
     (parser_on ''12a'') = Some (Returns False, parser_on ''12a'') \<and>
   Star Digit (parser_on ('''' :: string)) = Some (Returns True, parser_on '''') \<and>
   Star (Finao Digit) (parser_on ''1a'') = Some (Throws 0, (parser_on ''1a'')\<lparr>offset := 1\<rparr>) \<and>
   Opt Digit (parser_on ''a'') = Some (Returns True, parser_on ''a'') \<and>
   Star (Opt Digit) (parser_on ''a'') = None"
proof -
  let ?p = "parser_on ''12a''"
  let ?q = "(parser_on ''12a'')\<lparr>offset := 2\<rparr>"
  let ?t = "(parser_on ''1a'')\<lparr>offset := 1\<rparr>"
  have two: "all_return True (replicate 2 Digit) ?p = Some ?q"
    by (simp add: numeral_2_eq_2 Digit_def parser_on_def AtEnd_def)
  have fails: "Digit ?q = Some (Returns False, ?q)"
    by (simp add: Digit_def parser_on_def AtEnd_def)
  have ne: "\<not> AtEnd ?p" by (simp add: AtEnd_def parser_on_def)
  have lit: "Literal ''2'' ?q = Some (Returns False, ?q)"
    by code_simp
  have reset: "SetPos (GetPos ?p) ?q = ?p"
    by (simp add: SetPos_def GetPos_def parser_on_def)
  note inst = Star_greedy [where R = Digit and p = ?p and q = ?q]
  note runs = inst [THEN conjunct2, THEN conjunct2, THEN conjunct2, THEN conjunct1]
  note greedy = inst [THEN conjunct2, THEN conjunct2, THEN conjunct2, THEN conjunct2, THEN conjunct1]
  note after = inst [THEN conjunct2, THEN conjunct2, THEN conjunct2, THEN conjunct2,
      THEN conjunct2, THEN conjunct1]
  from two fails have ex: "\<exists>n m. all_return True (replicate n Digit) ?p = Some m \<and>
      Digit m = Some (Returns False, ?q)" by blast
  from runs ne have "Star Digit ?p = Some (Returns True, ?q) \<longleftrightarrow>
      (\<exists>n m. all_return True (replicate n Digit) ?p = Some m \<and> Digit m = Some (Returns False, ?q))"
    by blast
  from this ex have star: "Star Digit ?p = Some (Returns True, ?q)" by (rule iffD2)
  from greedy Digit_contract(2) star
  have "\<exists>n m. all_return True (replicate n Digit) ?p = Some m \<and>
             all_return True (replicate (Suc n) Digit) ?p = None \<and>
             (restores_offset Digit \<longrightarrow> offset ?q = offset m) \<and>
             (restores_position Digit \<longrightarrow> GetPos ?q = GetPos m) \<and>
             (failure_transparent Digit \<longrightarrow> ?q = m)"
    by (elim impE) assumption+
  then obtain n m where nm: "all_return True (replicate n Digit) ?p = Some m"
      "all_return True (replicate (Suc n) Digit) ?p = None"
      "restores_position Digit \<longrightarrow> GetPos ?q = GetPos m"
    by blast
  from nm(3) Digit_contract(3) have "GetPos ?q = GetPos m" by (rule mp)
  with nm(1,2)
  have 2: "\<exists>n m. all_return True (replicate n Digit) ?p = Some m \<and>
      all_return True (replicate (Suc n) Digit) ?p = None \<and> GetPos ?q = GetPos m"
    by blast
  from after star have "\<forall>X q'. X ?q = Some (Returns False, q') \<longrightarrow>
         Seq (Star Digit) X True_T True_T True_T True_T True_T True_T True_T True_T ?p =
           Some (Returns False, SetPos (GetPos ?p) q')"
    by (rule mp)
  then have "Literal ''2'' ?q = Some (Returns False, ?q) \<longrightarrow>
         Seq (Star Digit) (Literal ''2'') True_T True_T True_T True_T True_T True_T True_T True_T ?p =
           Some (Returns False, SetPos (GetPos ?p) ?q)"
    by blast
  from this lit have "Seq (Star Digit) (Literal ''2'') True_T True_T True_T True_T True_T True_T
     True_T True_T ?p = Some (Returns False, SetPos (GetPos ?p) ?q)"
    by (rule mp)
  then have 3: "Seq (Star Digit) (Literal ''2'') True_T True_T True_T True_T True_T True_T
     True_T True_T ?p = Some (Returns False, ?p)"
    by (simp only: reset)
  have e: "AtEnd (parser_on ('''' :: string))" by (simp add: AtEnd_def parser_on_def)
  from Star_greedy [where R = Digit and p = "parser_on ('''' :: string)", THEN conjunct2,
      THEN conjunct1] e
  have 4: "Star Digit (parser_on ('''' :: string)) = Some (Returns True, parser_on '''')"
    by (rule mp)
  have t0: "all_return True (replicate 1 (Finao Digit)) (parser_on ''1a'') = Some ?t"
    by (simp add: Finao_def Digit_def parser_on_def AtEnd_def)
  have t1: "Finao Digit ?t = Some (Throws 0, ?t)"
    by (simp add: Finao_def Digit_def parser_on_def AtEnd_def)
  have t2: "\<not> AtEnd (parser_on ''1a'')" by (simp add: AtEnd_def parser_on_def)
  from t0 t1 have tex: "\<exists>n m. all_return True (replicate n (Finao Digit)) (parser_on ''1a'') = Some m \<and>
      Finao Digit m = Some (Throws 0, ?t)" by blast
  from Star_greedy [where R = "Finao Digit" and p = "parser_on ''1a''" and q = ?t and e = 0,
      THEN conjunct2, THEN conjunct2, THEN conjunct2, THEN conjunct1] t2
  have "Star (Finao Digit) (parser_on ''1a'') = Some (Throws 0, ?t) \<longleftrightarrow>
      (\<exists>n m. all_return True (replicate n (Finao Digit)) (parser_on ''1a'') = Some m \<and>
         Finao Digit m = Some (Throws 0, ?t))"
    by blast
  from this tex have 5: "Star (Finao Digit) (parser_on ''1a'') = Some (Throws 0, ?t)" by (rule iffD2)
  have o0: "Opt Digit (parser_on ''a'') = Some (Returns True, parser_on ''a'')"
    by (simp add: Opt_def Digit_def parser_on_def AtEnd_def)
  have o1: "\<not> AtEnd (parser_on ''a'')" by (simp add: AtEnd_def parser_on_def)
  from o1 o0 have "\<not> AtEnd (parser_on ''a'') \<and> Opt Digit (parser_on ''a'') = Some (Returns True, parser_on ''a'')"
    by (rule conjI)
  from Star_greedy [where R = "Opt Digit" and p = "parser_on ''a''", THEN conjunct2, THEN conjunct2,
      THEN conjunct2, THEN conjunct2, THEN conjunct2, THEN conjunct2] this
  have 6: "Star (Opt Digit) (parser_on ''a'') = None" by (rule mp)
  from Digit_contract(1,2,3) star 2 3 4 5 o0 6 show ?thesis by (intro conjI)
qed

section \<open>Scanning ahead\<close>

lemma UntilPast_while_agree:
  assumes "UntilPast_while R i p = Some y"
  shows "\<not> AtEnd p \<Longrightarrow> (\<forall>s. \<not> AtEnd s \<longrightarrow> R s = R' s) \<Longrightarrow> UntilPast_while R' i p = Some y"
  using assms
proof (induction R i p y rule: UntilPast_while.raw_induct[rotated 1, consumes 1, case_names step])
  case (step U R i p y)
  from step(3,4) have same: "R' p = R p" by simp
  show ?case
  proof (cases "R p")
    case None
    with step(2) show ?thesis by simp
  next
    case (Some a)
    obtain r m where a: "a = (r, m)" by (cases a)
    with Some same have rp: "R p = Some (r, m)" and rp': "R' p = Some (r, m)" by simp_all
    show ?thesis
    proof (cases r)
      case (Returns b)
      show ?thesis
      proof (cases b)
        case True
        with step(2) rp Returns have "y = (Returns True, m)" by simp
        with rp' Returns True show ?thesis by (subst UntilPast_while.simps) simp
      next
        case False
        show ?thesis
        proof (cases "GotoNext m")
          case None
          with step(2) rp Returns False have "y = (Undefined, m)" by simp
          with rp' Returns False None show ?thesis by (subst UntilPast_while.simps) simp
        next
          case (Some n)
          note nxt = this
          show ?thesis
          proof (cases "AtEnd n")
            case True
            with step(2) rp Returns False nxt have "y = (Returns False, SetPos i n)" by simp
            with rp' Returns False nxt True show ?thesis by (subst UntilPast_while.simps) simp
          next
            case ne: False
            with step(2) rp Returns False nxt have "U R i n = Some y" by simp
            from step(1)[OF this ne step(4)] have "UntilPast_while R' i n = Some y" .
            with rp' Returns False nxt ne show ?thesis by (subst UntilPast_while.simps) simp
          qed
        qed
      qed
    next
      case (Throws e)
      with step(2) rp have "y = (Throws e, m)" by simp
      with rp' Throws show ?thesis by (subst UntilPast_while.simps) simp
    next
      case Undefined
      with step(2) rp have "y = (Undefined, m)" by simp
      with rp' Undefined show ?thesis by (subst UntilPast_while.simps) simp
    qed
  qed
qed

lemma UntilPast_agree:
  assumes "\<not> AtEnd p" and "\<forall>s. \<not> AtEnd s \<longrightarrow> R s = R' s"
  shows "UntilPast R p = UntilPast R' p"
proof (cases "UntilPast_while R (GetPos p) p")
  case (Some y)
  from UntilPast_while_agree[OF this assms] Some show ?thesis by (simp add: UntilPast_def)
next
  case None
  have "UntilPast_while R' (GetPos p) p = None"
  proof (cases "UntilPast_while R' (GetPos p) p")
    case (Some y)
    from assms(2) have "\<forall>s. \<not> AtEnd s \<longrightarrow> R' s = R s" by simp
    from UntilPast_while_agree[OF Some assms(1) this] None show ?thesis by simp
  qed simp
  with None show ?thesis by (simp add: UntilPast_def)
qed

lemma UntilPast_while_EndOfInput_T:
  "\<not> AtEnd p \<Longrightarrow> UntilPast_while EndOfInput_T i p = Some (Returns False, SetPos i p)"
proof (induction "remaining p" arbitrary: p rule: less_induct)
  case less
  let ?n = "p\<lparr>offset := Suc (offset p)\<rparr>"
  from less.prems have e: "EndOfInput_T p = Some (Returns False, p)" by (simp add: EndOfInput_T_def)
  from less.prems have g: "GotoNext p = Some ?n" by (simp add: GotoNext_def)
  show ?case
  proof (cases "AtEnd ?n")
    case True
    with e g show ?thesis by (subst UntilPast_while.simps) (simp add: SetPos_def)
  next
    case False
    from less.prems have "remaining ?n < remaining p" by (simp add: remaining_def AtEnd_def)
    from less.hyps[OF this False] have "UntilPast_while EndOfInput_T i ?n = Some (Returns False, SetPos i p)"
      by (simp add: SetPos_def)
    with e g False show ?thesis by (subst UntilPast_while.simps) simp
  qed
qed

lemma UntilPast_at_end_fails:
  "R p = Some (Returns False, p') \<Longrightarrow> AtEnd p' \<Longrightarrow> UntilPast R p = Some (Undefined, p')"
  unfolding UntilPast_def by (subst UntilPast_while.simps) (simp add: GotoNext_def)

lemma UntilPast_matches_at_entry:
  "R p = Some (Returns True, q) \<Longrightarrow> UntilPast R p = Some (Returns True, q)"
  unfolding UntilPast_def by (subst UntilPast_while.simps) simp

text \<open>
  The claim C10 as it is written says that \<open>R\<close> is never attempted at the end of the
  input and that \<open>UntilPast(EndOfInput)\<close> always returns false. The first attempt is made
  before any test of \<open>AtEnd\<close>: at the end of the input \<open>UntilPast(EndOfInput)\<close> returns true.
\<close>

theorem UntilPast_EndOfInput_T_at_end:
  "UntilPast EndOfInput_T (parser_on ('''' :: string)) = Some (Returns True, parser_on '''')"
  by code_simp

text \<open>
  C10 (end of input in \<open>UntilPast\<close>), as the code has it. After a failed attempt the cursor
  is advanced before \<open>AtEnd\<close> is tested, so from a cursor that is not at the end the
  result does not depend on what \<open>R\<close> does at the end of the input (it is not attempted
  there), and \<open>UntilPast EndOfInput_T\<close> returns false with the cursor as it was. From a
  cursor at the end, \<open>R\<close> is attempted once: \<open>UntilPast EndOfInput_T\<close> returns true, and
  when \<open>R\<close> fails there \<open>GotoNext\<close> is called at the end of the input, where it is not
  defined.
\<close>

theorem UntilPast_end_of_input:
  "(\<not> AtEnd p \<and> (\<forall>s. \<not> AtEnd s \<longrightarrow> R s = R' s) \<longrightarrow> UntilPast R p = UntilPast R' p) \<and>
   (\<not> AtEnd p \<longrightarrow> UntilPast EndOfInput_T p = Some (Returns False, p)) \<and>
   (AtEnd p \<longrightarrow> UntilPast EndOfInput_T p = Some (Returns True, p)) \<and>
   (AtEnd p \<and> R p = Some (Returns False, p') \<and> input p' = input p \<and> offset p' = offset p \<longrightarrow>
      UntilPast R p = Some (Undefined, p'))"
proof -
  have 2: "UntilPast EndOfInput_T p = Some (Returns False, p)" if "\<not> AtEnd p"
    using UntilPast_while_EndOfInput_T[OF that, of "GetPos p"]
    by (simp add: UntilPast_def SetPos_restores)
  have 3: "UntilPast EndOfInput_T p = Some (Returns True, p)" if "AtEnd p"
    using that by (intro UntilPast_matches_at_entry) (simp add: EndOfInput_T_def)
  have 4: "UntilPast R p = Some (Undefined, p')"
    if "AtEnd p" "R p = Some (Returns False, p')" "input p' = input p" "offset p' = offset p"
  proof -
    from that(1,3,4) have "AtEnd p'" by (simp add: AtEnd_def)
    with that(2) show ?thesis by (rule UntilPast_at_end_fails)
  qed
  from UntilPast_agree[of p R R'] 2 3 4 show ?thesis by blast
qed

theorem UntilPast_end_of_input_witness:
  "UntilPast EndOfInput_T (parser_on ''ab'') = UntilPast False_T (parser_on ''ab'') \<and>
   UntilPast EndOfInput_T (parser_on ''ab'') = Some (Returns False, parser_on ''ab'') \<and>
   UntilPast EndOfInput_T (parser_on ('''' :: string)) = Some (Returns True, parser_on '''') \<and>
   UntilPast (Literal '';'') (parser_on ('''' :: string)) = Some (Undefined, parser_on '''')"
proof -
  have ne: "\<not> AtEnd (parser_on ''ab'')" by (simp add: AtEnd_def parser_on_def)
  have e: "AtEnd (parser_on ('''' :: string))" by (simp add: AtEnd_def parser_on_def)
  have agree: "\<forall>s :: char cursor. \<not> AtEnd s \<longrightarrow> EndOfInput_T s = False_T s"
    by (simp add: EndOfInput_T_def False_T_def)
  have f: "Literal '';'' (parser_on ('''' :: string)) = Some (Returns False, parser_on '''')"
    by (simp add: Literal_def parser_on_def)
  from UntilPast_end_of_input [of "parser_on ''ab''" EndOfInput_T False_T] ne agree
  have 1: "UntilPast EndOfInput_T (parser_on ''ab'') = UntilPast False_T (parser_on ''ab'') \<and>
           UntilPast EndOfInput_T (parser_on ''ab'') = Some (Returns False, parser_on ''ab'')"
    by blast
  from UntilPast_end_of_input [of "parser_on ('''' :: string)" "Literal '';''" "Literal '';''"
         "parser_on ('''' :: string)"] e f
  have 2: "UntilPast EndOfInput_T (parser_on ('''' :: string)) = Some (Returns True, parser_on '''') \<and>
           UntilPast (Literal '';'') (parser_on ('''' :: string)) = Some (Undefined, parser_on '''')"
    by blast
  from 1 2 show ?thesis by blast
qed

text \<open>
  What \<open>UntilPast\<close> does from a cursor that is not at the end, for a rule that leaves the
  cursor untouched where it fails: it returns true, in the state \<open>R\<close> left, at the first
  offset \<open>k\<close> at which \<open>R\<close> matches, and false with the cursor as at entry when \<open>R\<close> matches
  at no offset before the end.
\<close>

lemma UntilPast_while_scan_match:
  "offset p \<le> k \<Longrightarrow> k < length (input p) \<Longrightarrow>
   (\<forall>j. offset p \<le> j \<and> j < k \<longrightarrow> R (p\<lparr>offset := j\<rparr>) = Some (Returns False, p\<lparr>offset := j\<rparr>)) \<Longrightarrow>
   R (p\<lparr>offset := k\<rparr>) = Some (Returns True, q) \<Longrightarrow>
   UntilPast_while R i p = Some (Returns True, q)"
proof (induction "k - offset p" arbitrary: p)
  case 0
  then have "p\<lparr>offset := k\<rparr> = p" by simp
  with "0.prems"(4) have "R p = Some (Returns True, q)" by simp
  then show ?case by (subst UntilPast_while.simps) simp
next
  case (Suc d)
  let ?n = "p\<lparr>offset := Suc (offset p)\<rparr>"
  from Suc.hyps(2) have lt: "offset p < k" by simp
  with Suc.prems(3) have "R (p\<lparr>offset := offset p\<rparr>) = Some (Returns False, p\<lparr>offset := offset p\<rparr>)"
    by blast
  then have f: "R p = Some (Returns False, p)" by simp
  from lt Suc.prems(2) have g: "GotoNext p = Some ?n" "\<not> AtEnd ?n"
    by (simp_all add: GotoNext_def AtEnd_def)
  have "UntilPast_while R i ?n = Some (Returns True, q)"
  proof (rule Suc.hyps(1))
    show "d = k - offset ?n" using Suc.hyps(2) by simp
    show "offset ?n \<le> k" using lt by simp
    show "k < length (input ?n)" using Suc.prems(2) by simp
    show "\<forall>j. offset ?n \<le> j \<and> j < k \<longrightarrow>
            R (?n\<lparr>offset := j\<rparr>) = Some (Returns False, ?n\<lparr>offset := j\<rparr>)"
      using Suc.prems(3) by simp
    show "R (?n\<lparr>offset := k\<rparr>) = Some (Returns True, q)" using Suc.prems(4) by simp
  qed
  with f g show ?case by (subst UntilPast_while.simps) simp
qed

lemma UntilPast_while_scan_fail:
  "\<not> AtEnd p \<Longrightarrow>
   (\<forall>j. offset p \<le> j \<and> j < length (input p) \<longrightarrow>
        R (p\<lparr>offset := j\<rparr>) = Some (Returns False, p\<lparr>offset := j\<rparr>)) \<Longrightarrow>
   UntilPast_while R i p = Some (Returns False, SetPos i p)"
proof (induction "remaining p" arbitrary: p rule: less_induct)
  case less
  let ?n = "p\<lparr>offset := Suc (offset p)\<rparr>"
  from less.prems(1) have "offset p < length (input p)" by (simp add: AtEnd_def)
  with less.prems(2) have "R (p\<lparr>offset := offset p\<rparr>) = Some (Returns False, p\<lparr>offset := offset p\<rparr>)"
    by blast
  then have f: "R p = Some (Returns False, p)" by simp
  from less.prems(1) have g: "GotoNext p = Some ?n" by (simp add: GotoNext_def)
  show ?case
  proof (cases "AtEnd ?n")
    case True
    with f g show ?thesis by (subst UntilPast_while.simps) (simp add: SetPos_def)
  next
    case False
    from less.prems(1) have rem: "remaining ?n < remaining p"
      by (simp add: remaining_def AtEnd_def)
    have rest: "\<forall>j. offset ?n \<le> j \<and> j < length (input ?n) \<longrightarrow>
        R (?n\<lparr>offset := j\<rparr>) = Some (Returns False, ?n\<lparr>offset := j\<rparr>)"
      using less.prems(2) by simp
    from less.hyps[OF rem False rest]
    have "UntilPast_while R i ?n = Some (Returns False, SetPos i ?n)" .
    with f g False show ?thesis by (subst UntilPast_while.simps) (simp add: SetPos_def)
  qed
qed

lemma UntilPast_scan:
  "(offset p \<le> k \<and> k < length (input p) \<and>
    (\<forall>j. offset p \<le> j \<and> j < k \<longrightarrow> R (p\<lparr>offset := j\<rparr>) = Some (Returns False, p\<lparr>offset := j\<rparr>)) \<and>
    R (p\<lparr>offset := k\<rparr>) = Some (Returns True, q) \<longrightarrow>
      UntilPast R p = Some (Returns True, q)) \<and>
   (\<not> AtEnd p \<and>
    (\<forall>j. offset p \<le> j \<and> j < length (input p) \<longrightarrow>
        R (p\<lparr>offset := j\<rparr>) = Some (Returns False, p\<lparr>offset := j\<rparr>)) \<longrightarrow>
      UntilPast R p = Some (Returns False, p))"
  using UntilPast_while_scan_match[of p k R q "GetPos p"]
        UntilPast_while_scan_fail[of p R "GetPos p"]
  by (simp add: UntilPast_def SetPos_restores)

text \<open>
  C8. The two scenarios of the specification hold. The claim also covers a cursor that is
  already at the end, and promises a false result with the cursor restored there; the
  code calls \<open>GotoNext\<close> at the end of the input instead (third and fourth line: an empty
  input, and an opening delimiter that ends the input).
\<close>

theorem UntilPast_scenarios:
  "UntilPast (Literal '';'') (parser_on ''ab;cd'') =
     Some (Returns True, (parser_on ''ab;cd'')\<lparr>offset := 3\<rparr>) \<and>
   UntilPast (Literal '';'') (parser_on ''abcd'') = Some (Returns False, parser_on ''abcd'') \<and>
   UntilPast (Literal '';'') (parser_on ('''' :: string)) = Some (Undefined, parser_on '''') \<and>
   Seq (Literal ''<#'') (UntilPast (Literal ''#>'')) True_T True_T True_T True_T True_T True_T True_T
     True_T (parser_on ''<#'') = Some (Undefined, (parser_on ''<#'')\<lparr>offset := 2\<rparr>)"
  by code_simp

end
